theory Spec2Isabelle
  imports Main "HOL-Library.AList" "HOL-Library.Sublist"
begin

section \<open>The nested state container of \<open>flax/nnx/nnx/state.py\<close>\<close>

text \<open>
  A \<open>State\<close> wraps a Python dictionary \<open>_mapping\<close> whose values are leaves or
  further dictionaries. Python dictionaries iterate in insertion order and hold every key
  once, so a dictionary is an association list whose keys are distinct (\<open>wf_dict\<close>);
  storing under a key that is present replaces the value in place, storing under a new
  key appends (\<^const>\<open>AList.update\<close>). Keys and leaves are opaque: the type variables
  \<open>'k\<close> and \<open>'v\<close>.
\<close>

datatype ('k, 'v) tree = Leaf 'v | Dict "('k \<times> ('k, 'v) tree) list"

type_synonym ('k, 'v) state = "('k \<times> ('k, 'v) tree) list"

type_synonym ('k, 'v) flat_state = "('k list \<times> 'v) list"

text \<open>
  The errors of the module. \<open>OrderingError\<close> is the \<open>ValueError\<close> of
  \<open>_split_state\<close> (a wildcard before a filter that is none), \<open>NonExhaustiveError\<close>
  the \<open>ValueError\<close> of \<open>split\<close>, which reports the remainder, and \<open>UnflattenError\<close>
  the failure of \<open>unflatten_dict\<close> on a flat state it cannot store. \<open>UnpackError\<close> is what the
  starred unpacking \<open>*states_, rest = ...\<close> raises on an empty tuple, and
  \<open>AssertionError\<close> the failure of the \<open>assert\<close> in \<open>filter\<close>.
\<close>

datatype ('k, 'v) error =
    OrderingError
  | NonExhaustiveError "('k, 'v) state"
  | UnflattenError
  | UnpackError
  | AssertionError

fun wf_tree :: "('k, 'v) tree \<Rightarrow> bool" where
  "wf_tree (Leaf v) = True"
| "wf_tree (Dict kvs) = (distinct (map fst kvs) \<and> (\<forall>t \<in> snd ` set kvs. wf_tree t))"

definition wf_dict :: "('k, 'v) state \<Rightarrow> bool" where
  "wf_dict kvs = wf_tree (Dict kvs)"

subsection \<open>Flattening and unflattening\<close>

text \<open>
  Modelled from the spec: \<open>traverse_util.flatten_dict\<close>, which \<open>State.flat_state\<close>
  calls and which is not among the sources. The spec: depth-first traversal; for every
  top-level key, if its value is a sub-container, recurse and prepend the current key to
  every returned path; if it is a leaf, emit the path ending in the key with the leaf.
\<close>

function flatten_dict :: "('k, 'v) state \<Rightarrow> ('k, 'v) flat_state" where
  "flatten_dict [] = []"
| "flatten_dict ((k, Leaf v) # kvs) = ([k], v) # flatten_dict kvs"
| "flatten_dict ((k, Dict d) # kvs) =
     map (\<lambda>(p, v). (k # p, v)) (flatten_dict d) @ flatten_dict kvs"
  by pat_completeness auto
termination
  by (relation "measure (size_list (size_prod (\<lambda>_. 0) size))") auto

text \<open>\<open>State.flat_state\<close>: \<open>return traverse_util.flatten_dict(self._mapping)\<close>.\<close>

definition flat_state :: "('k, 'v) state \<Rightarrow> ('k, 'v) flat_state" where
  "flat_state s = flatten_dict s"

text \<open>The entries of a flat state under the first key \<open>k\<close>, with that key removed.\<close>

fun under_key :: "'k \<Rightarrow> ('k, 'v) flat_state \<Rightarrow> ('k, 'v) flat_state" where
  "under_key k [] = []"
| "under_key k (([], v) # fl) = under_key k fl"
| "under_key k ((k' # p, v) # fl) =
     (if k' = k then (p, v) # under_key k fl else under_key k fl)"

text \<open>
  Modelled from the spec: \<open>traverse_util.unflatten_dict\<close>, which
  \<open>State.from_flat_path\<close> calls and which is not among the sources. The spec: the
  inverse operation; it groups paths by shared key prefixes, building the intermediate
  containers. For a flat state in which a path is a strict prefix of another the spec
  calls the behaviour undefined; \<open>State.from_flat_path\<close> makes no check of its own, and
  none is modelled. The entries are stored one after another, in the order of the flat
  state. \<open>set_path\<close> stores one entry: it walks down the keys of the path but the last,
  creating the dictionaries that are missing, and stores the leaf under the last key, over
  whatever that key holds. Walking into a leaf fails in the item access of the leaf, and
  the empty path has no last key: both are \<open>UnflattenError\<close>.
\<close>

fun set_path :: "('k, 'v) state \<Rightarrow> 'k list \<Rightarrow> 'v \<Rightarrow> ('k, 'v) error + ('k, 'v) state" where
  "set_path cursor [] v = Inl UnflattenError"
| "set_path cursor [k] v = Inr (AList.update k (Leaf v) cursor)"
| "set_path cursor (k # k' # p) v =
     (case map_of cursor k of
        None \<Rightarrow>
          (case set_path [] (k' # p) v of
             Inl e \<Rightarrow> Inl e
           | Inr sub \<Rightarrow> Inr (AList.update k (Dict sub) cursor))
      | Some (Dict d) \<Rightarrow>
          (case set_path d (k' # p) v of
             Inl e \<Rightarrow> Inl e
           | Inr sub \<Rightarrow> Inr (AList.update k (Dict sub) cursor))
      | Some (Leaf w) \<Rightarrow> Inl UnflattenError)"

fun unflatten_loop ::
  "('k, 'v) flat_state \<Rightarrow> ('k, 'v) state \<Rightarrow> ('k, 'v) error + ('k, 'v) state" where
  "unflatten_loop [] result = Inr result"
| "unflatten_loop ((path, v) # xs) result =
     (case set_path result path v of
        Inl e \<Rightarrow> Inl e
      | Inr result' \<Rightarrow> unflatten_loop xs result')"

definition unflatten_dict :: "('k, 'v) flat_state \<Rightarrow> ('k, 'v) error + ('k, 'v) state" where
  "unflatten_dict xs = unflatten_loop xs []"

text \<open>
  \<open>State.from_flat_path\<close>: \<open>cls(traverse_util.unflatten_dict(flat_state))\<close>; the
  constructor's shallow copy of the fresh dictionary is the same value.
\<close>

definition from_flat_path :: "('k, 'v) flat_state \<Rightarrow> ('k, 'v) error + ('k, 'v) state" where
  "from_flat_path fl = unflatten_dict fl"

subsection \<open>Filters and partitioning\<close>

text \<open>
  A filter as \<open>_split_state\<close> sees it: the sentinel \<open>...\<close>, the literal \<open>True\<close>, or a
  predicate on a path and a leaf.
\<close>

datatype ('k, 'v) Filter = Ellipsis | BoolTrue | Predicate "'k list \<Rightarrow> 'v \<Rightarrow> bool"

text \<open>The test \<open>filter_ in (..., True)\<close>.\<close>

fun in_ellipsis_true :: "('k, 'v) Filter \<Rightarrow> bool" where
  "in_ellipsis_true Ellipsis = True"
| "in_ellipsis_true BoolTrue = True"
| "in_ellipsis_true (Predicate f) = False"

text \<open>
  Modelled from the spec: \<open>filterlib.to_predicate\<close>, which is not among the sources.
  The spec: a filter is a predicate, or the wildcard, which matches unconditionally. The
  literal \<open>True\<close>, which the validation of \<open>_split_state\<close> puts beside \<open>...\<close>, is given
  the same predicate.
\<close>

fun to_predicate :: "('k, 'v) Filter \<Rightarrow> 'k list \<Rightarrow> 'v \<Rightarrow> bool" where
  "to_predicate Ellipsis = (\<lambda>p v. True)"
| "to_predicate BoolTrue = (\<lambda>p v. True)"
| "to_predicate (Predicate f) = f"

text \<open>
  The validation loop of \<open>_split_state\<close>, as a recursion on the filters from index \<open>i\<close>
  on: \<open>fs\<close> is \<open>filters[i + 1:]\<close>, and \<open>i != len(filters) - 1\<close> says that it is not
  empty. The result says whether the loop raises.
\<close>

fun wildcard_misplaced :: "('k, 'v) Filter list \<Rightarrow> bool" where
  "wildcard_misplaced [] = False"
| "wildcard_misplaced (f # fs) =
     (if in_ellipsis_true f \<and> fs \<noteq> [] \<and> \<not> list_all in_ellipsis_true fs then True
      else wildcard_misplaced fs)"

text \<open>
  The inner loop over \<open>enumerate(predicates)\<close>: the index of the first predicate that
  holds, and \<open>length predicates\<close>, the index of the last of the \<open>n + 1\<close> flat states,
  when the loop ends without \<open>break\<close>.
\<close>

fun first_match :: "('k list \<Rightarrow> 'v \<Rightarrow> bool) list \<Rightarrow> 'k list \<Rightarrow> 'v \<Rightarrow> nat" where
  "first_match [] p v = 0"
| "first_match (f # fs) p v = (if f p v then 0 else Suc (first_match fs p v))"

text \<open>One round of the outer loop: \<open>flat_states[i][path] = value\<close>.\<close>

definition assign ::
  "('k list \<Rightarrow> 'v \<Rightarrow> bool) list \<Rightarrow> ('k, 'v) flat_state list \<Rightarrow> 'k list \<times> 'v
     \<Rightarrow> ('k, 'v) flat_state list" where
  "assign predicates flat_states pv =
     (let i = first_match predicates (fst pv) (snd pv)
      in flat_states[i := AList.update (fst pv) (snd pv) (flat_states ! i)])"

definition partition_flat ::
  "('k list \<Rightarrow> 'v \<Rightarrow> bool) list \<Rightarrow> ('k, 'v) flat_state \<Rightarrow> ('k, 'v) flat_state list" where
  "partition_flat predicates fl =
     foldl (assign predicates) (replicate (length predicates + 1) []) fl"

text \<open>
  The generator \<open>tuple(State.from_flat_path(flat_state) for flat_state in flat_states)\<close>:
  the first failure ends it.
\<close>

fun from_flat_paths ::
  "('k, 'v) flat_state list \<Rightarrow> ('k, 'v) error + ('k, 'v) state list" where
  "from_flat_paths [] = Inr []"
| "from_flat_paths (fl # fls) =
     (case from_flat_path fl of
        Inl e \<Rightarrow> Inl e
      | Inr s \<Rightarrow> (case from_flat_paths fls of Inl e \<Rightarrow> Inl e | Inr ss \<Rightarrow> Inr (s # ss)))"

definition split_state ::
  "('k, 'v) state \<Rightarrow> ('k, 'v) Filter list \<Rightarrow> ('k, 'v) error + ('k, 'v) state list" where
  "split_state state filters =
     (if wildcard_misplaced filters then Inl OrderingError
      else from_flat_paths (partition_flat (map to_predicate filters) (flat_state state)))"

text \<open>What \<open>split\<close> and \<open>filter\<close> return: one state, or a tuple of states.\<close>

datatype ('k, 'v) states = Single "('k, 'v) state" | Tuple "('k, 'v) state list"

definition State_split ::
  "('k, 'v) state \<Rightarrow> ('k, 'v) Filter \<Rightarrow> ('k, 'v) Filter list
     \<Rightarrow> ('k, 'v) error + ('k, 'v) states" where
  "State_split self first filters =
     (case split_state self (first # filters) of
        Inl e \<Rightarrow> Inl e
      | Inr sts \<Rightarrow>
          if sts = [] then Inl UnpackError
          else let states' = butlast sts; rest = last sts
               in if rest \<noteq> [] then Inl (NonExhaustiveError rest)
                  else if length states' = 1 then Inr (Single (hd states'))
                  else Inr (Tuple states'))"

definition State_filter ::
  "('k, 'v) state \<Rightarrow> ('k, 'v) Filter \<Rightarrow> ('k, 'v) Filter list
     \<Rightarrow> ('k, 'v) error + ('k, 'v) states" where
  "State_filter self first filters =
     (case split_state self (first # filters) of
        Inl e \<Rightarrow> Inl e
      | Inr sts \<Rightarrow>
          if sts = [] then Inl UnpackError
          else let states' = butlast sts
               in if length states' \<noteq> length filters + 1 then Inl AssertionError
                  else if length states' = 1 then Inr (Single (hd states'))
                  else Inr (Tuple states'))"

subsection \<open>Merge, union and difference\<close>

text \<open>\<open>dict.update\<close>: the entries of \<open>e\<close> are stored one by one, in their order.\<close>

definition dict_update :: "('a \<times> 'b) list \<Rightarrow> ('a \<times> 'b) list \<Rightarrow> ('a \<times> 'b) list" where
  "dict_update d e = fold (\<lambda>(k, v). AList.update k v) e d"

definition State_merge ::
  "('k, 'v) state \<Rightarrow> ('k, 'v) state list \<Rightarrow> ('k, 'v) error + ('k, 'v) state" where
  "State_merge state states =
     (if length (state # states) = 1 then Inr state
      else from_flat_path
             (foldl (\<lambda>new_state st. dict_update new_state (flat_state st)) [] (state # states)))"

text \<open>\<open>__or__\<close>; \<open>not other\<close> holds when \<open>other\<close> has no top-level key.\<close>

definition State_or ::
  "('k, 'v) state \<Rightarrow> ('k, 'v) state \<Rightarrow> ('k, 'v) error + ('k, 'v) state" where
  "State_or self other = (if other = [] then Inr self else State_merge self [other])"

text \<open>\<open>__sub__\<close>; \<open>k not in other_flat\<close> looks at the paths of \<open>other\<close> only.\<close>

definition State_sub ::
  "('k, 'v) state \<Rightarrow> ('k, 'v) state \<Rightarrow> ('k, 'v) error + ('k, 'v) state" where
  "State_sub self other =
     (if other = [] then Inr self
      else let self_flat = flat_state self; other_flat = flat_state other;
               diff = filter (\<lambda>(k, v). k \<notin> fst ` set other_flat) self_flat
           in from_flat_path diff)"

subsection \<open>The container as an object: storage and views\<close>

text \<open>
  Indexing returns an object that shares a dictionary with its parent, so for
  \<open>__init__\<close>, \<open>__getitem__\<close> and \<open>__setitem__\<close> the dictionaries live in a store.
  A stored value is a leaf or a reference to a mapping object; a mapping object is a
  \<open>dict\<close> or a mapping of another class (\<open>isinstance(value, tp.Mapping)\<close> holds for both,
  \<open>isinstance(mapping, dict)\<close> for the first only). A \<open>State\<close> holds the address of its
  \<open>_mapping\<close>. Creating a dictionary takes the next free address.
\<close>

type_synonym addr = nat

datatype ('k, 'v) pyval = LeafVal 'v | Ref addr

datatype mapping_class = PyDict | OtherMapping

record ('k, 'v) pyobj =
  obj_class :: mapping_class
  obj_items :: "('k \<times> ('k, 'v) pyval) list"

record ('k, 'v) heap =
  objs :: "addr \<Rightarrow> ('k, 'v) pyobj"
  next_free :: addr

record State =
  raw_mapping :: addr

text \<open>
  \<open>KeyError\<close> is raised by \<open>self._mapping[key]\<close>, \<open>ConstructionError\<close> is the
  \<open>ValueError\<close> of \<open>__init__\<close>: "Expected a dictionary when \<open>_copy=False\<close>".
\<close>

datatype access_error = KeyError | ConstructionError

text \<open>The argument of \<open>__init__\<close>: a mapping object, or an iterator of pairs.\<close>

datatype ('k, 'v) init_arg = MappingArg addr | PairsArg "('k \<times> ('k, 'v) pyval) list"

text \<open>What indexing returns and what item assignment takes: a \<open>State\<close> or a leaf.\<close>

datatype 'v item = StateItem State | LeafItem 'v

definition State_init ::
  "('k, 'v) heap \<Rightarrow> ('k, 'v) init_arg \<Rightarrow> bool \<Rightarrow> access_error + State \<times> ('k, 'v) heap" where
  "State_init h mapping copy =
     (if copy then
        let its = (case mapping of
                     MappingArg a \<Rightarrow> obj_items (objs h a)
                   | PairsArg kvs \<Rightarrow> dict_update [] kvs);
            a' = next_free h
        in Inr (\<lparr>raw_mapping = a'\<rparr>,
                h\<lparr>objs := (objs h)(a' := \<lparr>obj_class = PyDict, obj_items = its\<rparr>),
                  next_free := Suc a'\<rparr>)
      else
        (case mapping of
           MappingArg a \<Rightarrow>
             if obj_class (objs h a) \<noteq> PyDict then Inl ConstructionError
             else Inr (\<lparr>raw_mapping = a\<rparr>, h)
         | PairsArg kvs \<Rightarrow> Inl ConstructionError))"

definition State_getitem ::
  "('k, 'v) heap \<Rightarrow> State \<Rightarrow> 'k \<Rightarrow> access_error + 'v item \<times> ('k, 'v) heap" where
  "State_getitem h self key =
     (case map_of (obj_items (objs h (raw_mapping self))) key of
        None \<Rightarrow> Inl KeyError
      | Some (Ref a) \<Rightarrow>
          (case State_init h (MappingArg a) False of
             Inl e \<Rightarrow> Inl e
           | Inr (st, h') \<Rightarrow> Inr (StateItem st, h'))
      | Some (LeafVal v) \<Rightarrow> Inr (LeafItem v, h))"

definition State_setitem ::
  "('k, 'v) heap \<Rightarrow> State \<Rightarrow> 'k \<Rightarrow> 'v item \<Rightarrow> ('k, 'v) heap" where
  "State_setitem h self key value =
     (let a = raw_mapping self;
          stored = (case value of
                      StateItem st \<Rightarrow> Ref (raw_mapping st)
                    | LeafItem v \<Rightarrow> LeafVal v)
      in h\<lparr>objs := (objs h)(a := (objs h a)\<lparr>obj_items :=
             AList.update key stored (obj_items (objs h a))\<rparr>)\<rparr>)"

subsection \<open>Notions used in the statements\<close>

text \<open>No sub-container below the root is empty.\<close>

fun no_empty_dict :: "('k, 'v) tree \<Rightarrow> bool" where
  "no_empty_dict (Leaf v) = True"
| "no_empty_dict (Dict kvs) = (kvs \<noteq> [] \<and> (\<forall>t \<in> snd ` set kvs. no_empty_dict t))"

text \<open>
  A flat state as the spec requires it for unflattening: the paths are distinct, none is
  empty, and none is a strict prefix of another.
\<close>

definition conforming :: "('k, 'v) flat_state \<Rightarrow> bool" where
  "conforming fl \<longleftrightarrow>
     distinct (map fst fl) \<and>
     (\<forall>x \<in> set fl. fst x \<noteq> [] \<and> (\<forall>y \<in> set fl. \<not> strict_prefix (fst x) (fst y)))"

text \<open>The node that a path of keys leads to.\<close>

fun lookup_path :: "('k, 'v) tree \<Rightarrow> 'k list \<Rightarrow> ('k, 'v) tree option" where
  "lookup_path t [] = Some t"
| "lookup_path (Leaf v) (k # p) = None"
| "lookup_path (Dict kvs) (k # p) =
     (case map_of kvs k of None \<Rightarrow> None | Some t \<Rightarrow> lookup_path t p)"

text \<open>The number of leaves of a tree.\<close>

fun count_leaves :: "('k, 'v) tree \<Rightarrow> nat" where
  "count_leaves (Leaf v) = 1"
| "count_leaves (Dict kvs) = sum_list (map (\<lambda>kt. count_leaves (snd kt)) kvs)"

text \<open>
  The order of a depth-first traversal that visits the keys of every container in the
  container's own key order: \<open>key_before ks a b\<close> says that \<open>a\<close> stands before \<open>b\<close> in
  the keys \<open>ks\<close>, and \<open>dfs_before t p q\<close> that the traversal of \<open>t\<close> reaches the path
  \<open>p\<close> before the path \<open>q\<close>: where the paths part, the key of \<open>p\<close> stands before the key
  of \<open>q\<close> in the container they part in.
\<close>

fun key_before :: "'k list \<Rightarrow> 'k \<Rightarrow> 'k \<Rightarrow> bool" where
  "key_before [] a b = False"
| "key_before (x # xs) a b =
     (if x = a then b \<noteq> a \<and> b \<in> set xs else if x = b then False else key_before xs a b)"

fun dfs_before :: "('k, 'v) tree \<Rightarrow> 'k list \<Rightarrow> 'k list \<Rightarrow> bool" where
  "dfs_before (Dict kvs) (a # p) (b # q) =
     (if a = b then (case map_of kvs a of None \<Rightarrow> False | Some t \<Rightarrow> dfs_before t p q)
      else key_before (map fst kvs) a b)"
| "dfs_before (Dict kvs) [] q = False"
| "dfs_before (Dict kvs) (a # p) [] = False"
| "dfs_before (Leaf v) p q = False"

text \<open>The entries of the flat state that the partitioning puts into bucket \<open>i\<close>.\<close>

definition bucket ::
  "('k, 'v) Filter list \<Rightarrow> ('k, 'v) flat_state \<Rightarrow> nat \<Rightarrow> ('k, 'v) flat_state" where
  "bucket filters fl i = filter (\<lambda>(p, v). first_match (map to_predicate filters) p v = i) fl"


subsection \<open>Facts about flattening and unflattening\<close>

lemma under_key_append: "under_key k (xs @ ys) = under_key k xs @ under_key k ys"
  by (induction k xs rule: under_key.induct) auto

lemma under_key_prepend: "under_key k (map (\<lambda>(p, v). (k # p, v)) xs) = xs"
  by (induction xs) auto

lemma set_under_key: "set (under_key k fl) = {(p, v). (k # p, v) \<in> set fl}"
  by (induction k fl rule: under_key.induct) auto

lemma flatten_dict_heads:
  "(p, v) \<in> set (flatten_dict s) \<Longrightarrow> p \<noteq> [] \<and> hd p \<in> fst ` set s"
  by (induction s arbitrary: p v rule: flatten_dict.induct) (auto simp: image_iff)

lemma under_key_none:
  "\<forall>(p, v) \<in> set fl. p \<noteq> [] \<and> hd p \<noteq> k \<Longrightarrow> under_key k fl = []"
  by (induction k fl rule: under_key.induct) auto

lemma flatten_dict_nonempty:
  "s \<noteq> [] \<Longrightarrow> \<forall>t \<in> snd ` set s. no_empty_dict t \<Longrightarrow> flatten_dict s \<noteq> []"
  by (induction s rule: flatten_dict.induct) auto

lemma set_flatten_dict_Cons_Leaf:
  "set (flatten_dict ((k, Leaf v) # kvs)) = insert ([k], v) (set (flatten_dict kvs))"
  by simp

lemma set_flatten_dict_Cons_Dict:
  "set (flatten_dict ((k, Dict d) # kvs))
     = (\<lambda>(p, v). (k # p, v)) ` set (flatten_dict d) \<union> set (flatten_dict kvs)"
  by simp

lemma wf_dict_Cons:
  "wf_dict ((k, t) # kvs) \<longleftrightarrow> k \<notin> fst ` set kvs \<and> wf_tree t \<and> wf_dict kvs"
  by (auto simp: wf_dict_def)

lemma flatten_dict_fresh_head:
  assumes "k \<notin> fst ` set s"
  shows "(k # p, v) \<notin> set (flatten_dict s)"
proof
  assume "(k # p, v) \<in> set (flatten_dict s)"
  from flatten_dict_heads [OF this] assms show False by simp
qed

lemma flatten_dict_no_empty_path: "([], v) \<notin> set (flatten_dict s)"
proof
  assume "([], v) \<in> set (flatten_dict s)"
  from flatten_dict_heads [OF this] show False by simp
qed

lemma flatten_dict_distinct: "wf_dict s \<Longrightarrow> distinct (map fst (flatten_dict s))"
proof (induction s rule: flatten_dict.induct)
  case 1
  then show ?case by simp
next
  case (2 k v kvs)
  then have fresh: "k \<notin> fst ` set kvs" and wf: "wf_dict kvs"
    by (simp_all add: wf_dict_Cons)
  have "[k] \<notin> fst ` set (flatten_dict kvs)"
    using flatten_dict_fresh_head [OF fresh] by auto
  then show ?case using 2 wf by simp
next
  case (3 k d kvs)
  then have fresh: "k \<notin> fst ` set kvs" and wf: "wf_dict kvs" and wfd: "wf_dict d"
    by (simp_all add: wf_dict_Cons wf_dict_def)
  have m: "map fst (map (\<lambda>(p, v). (k # p, v)) (flatten_dict d)) = map ((#) k) (map fst (flatten_dict d))"
    by (induction "flatten_dict d") auto
  have "distinct (map ((#) k) (map fst (flatten_dict d)))"
    using "3.IH"(1) [OF wfd] by (simp add: distinct_map inj_on_def)
  moreover have "set (map ((#) k) (map fst (flatten_dict d))) \<inter> fst ` set (flatten_dict kvs) = {}"
    using flatten_dict_fresh_head [OF fresh] by auto
  ultimately show ?case using "3.IH"(2) [OF wf] by (simp add: m del: map_map)
qed

lemma prepend_image_iff:
  "(q, u) \<in> (\<lambda>(p, v). (k # p, v)) ` A \<longleftrightarrow> (\<exists>q'. q = k # q' \<and> (q', u) \<in> A)"
  by force

lemma flatten_dict_prefix_free_app:
  "wf_dict s \<Longrightarrow> (p, v) \<in> set (flatten_dict s) \<Longrightarrow> (p @ r, w) \<in> set (flatten_dict s)
     \<Longrightarrow> r = []"
proof (induction s arbitrary: p v r w rule: flatten_dict.induct)
  case 1
  then show ?case by simp
next
  case (2 k v' kvs)
  then have fresh: "k \<notin> fst ` set kvs" and wf: "wf_dict kvs"
    by (simp_all add: wf_dict_Cons)
  from "2.prems"(2) have P: "(p = [k] \<and> v = v') \<or> (p, v) \<in> set (flatten_dict kvs)"
    by simp
  from "2.prems"(3) have Q: "(p @ r = [k] \<and> w = v') \<or> (p @ r, w) \<in> set (flatten_dict kvs)"
    by simp
  show ?case
  proof (cases "(p, v) \<in> set (flatten_dict kvs)")
    case True
    note pin = this
    have pne: "p \<noteq> []" using pin flatten_dict_no_empty_path by metis
    show ?thesis
    proof (cases "(p @ r, w) \<in> set (flatten_dict kvs)")
      case True
      with "2.IH" [OF wf pin] show ?thesis by simp
    next
      case False
      with Q have "p @ r = [k]" by simp
      with pne have "p = [k]" by (cases p) simp_all
      with pin flatten_dict_fresh_head [OF fresh] show ?thesis by metis
    qed
  next
    case False
    with P have pk: "p = [k]" by simp
    show ?thesis
    proof (cases "(p @ r, w) \<in> set (flatten_dict kvs)")
      case True
      then have "(k # r, w) \<in> set (flatten_dict kvs)" using pk by simp
      with flatten_dict_fresh_head [OF fresh] show ?thesis by metis
    next
      case False
      with Q have "p @ r = [k]" by simp
      with pk show ?thesis by simp
    qed
  qed
next
  case (3 k d kvs)
  then have fresh: "k \<notin> fst ` set kvs" and wf: "wf_dict kvs" and wfd: "wf_dict d"
    by (simp_all add: wf_dict_Cons wf_dict_def)
  have mem: "\<And>q u. (q, u) \<in> set (flatten_dict ((k, Dict d) # kvs)) \<longleftrightarrow>
      (\<exists>q'. q = k # q' \<and> (q', u) \<in> set (flatten_dict d)) \<or> (q, u) \<in> set (flatten_dict kvs)"
    by (simp add: prepend_image_iff)
  from "3.prems"(2) have P: "(\<exists>p'. p = k # p' \<and> (p', v) \<in> set (flatten_dict d))
      \<or> (p, v) \<in> set (flatten_dict kvs)"
    by (simp only: mem)
  from "3.prems"(3) have Q: "(\<exists>q'. p @ r = k # q' \<and> (q', w) \<in> set (flatten_dict d))
      \<or> (p @ r, w) \<in> set (flatten_dict kvs)"
    by (simp only: mem)
  show ?case
  proof (cases "(p, v) \<in> set (flatten_dict kvs)")
    case True
    note pin = this
    have pne: "p \<noteq> []" using pin flatten_dict_no_empty_path by metis
    then obtain a p' where p: "p = a # p'" by (cases p) simp_all
    have "a \<noteq> k" using pin flatten_dict_fresh_head [OF fresh] unfolding p by metis
    then have "\<not> (\<exists>q'. p @ r = k # q' \<and> (q', w) \<in> set (flatten_dict d))"
      unfolding p by simp
    with Q have "(p @ r, w) \<in> set (flatten_dict kvs)" by simp
    with "3.IH"(2) [OF wf pin] show ?thesis by simp
  next
    case False
    with P obtain p' where p: "p = k # p'" and p'in: "(p', v) \<in> set (flatten_dict d)"
      by blast
    have "(p @ r, w) \<notin> set (flatten_dict kvs)"
      using flatten_dict_fresh_head [OF fresh] unfolding p by simp
    with Q obtain q' where "p @ r = k # q'" and q'in: "(q', w) \<in> set (flatten_dict d)"
      by blast
    then have "q' = p' @ r" unfolding p by simp
    with q'in "3.IH"(1) [OF wfd p'in] show ?thesis by simp
  qed
qed

lemma flatten_dict_prefix_free:
  assumes "wf_dict s" "(p, v) \<in> set (flatten_dict s)" "(q, w) \<in> set (flatten_dict s)"
  shows "\<not> strict_prefix p q"
proof
  assume "strict_prefix p q"
  then obtain r where q: "q = p @ r" and r: "r \<noteq> []"
    by (auto simp: strict_prefix_def prefix_def)
  from flatten_dict_prefix_free_app [OF assms(1,2)] assms(3) q r show False by simp
qed

lemma conformingI:
  assumes "distinct (map fst fl)" and "\<And>v. ([], v) \<notin> set fl"
    and "\<And>p v q w. (p, v) \<in> set fl \<Longrightarrow> (q, w) \<in> set fl \<Longrightarrow> \<not> strict_prefix p q"
  shows "conforming fl"
  unfolding conforming_def
proof (intro conjI ballI)
  show "distinct (map fst fl)" by (rule assms(1))
next
  fix x assume "x \<in> set fl"
  then have "(fst x, snd x) \<in> set fl" by simp
  with assms(2) [of "snd x"] show "fst x \<noteq> []" by metis
next
  fix x y assume "x \<in> set fl" "y \<in> set fl"
  then have "(fst x, snd x) \<in> set fl" "(fst y, snd y) \<in> set fl" by simp_all
  then show "\<not> strict_prefix (fst x) (fst y)" by (rule assms(3))
qed

lemma conforming_distinct: "conforming fl \<Longrightarrow> distinct (map fst fl)"
  by (simp add: conforming_def)

lemma conforming_no_empty_path:
  assumes c: "conforming fl"
  shows "([], v) \<notin> set fl"
proof
  assume m: "([], v) \<in> set fl"
  from c have "\<forall>x \<in> set fl. fst x \<noteq> []" unfolding conforming_def by blast
  from bspec [OF this m] show False by simp
qed

lemma conforming_prefix_free:
  assumes c: "conforming fl" and p: "(p, v) \<in> set fl" and q: "(q, w) \<in> set fl"
  shows "\<not> strict_prefix p q"
proof -
  from c have "\<forall>x \<in> set fl. \<forall>y \<in> set fl. \<not> strict_prefix (fst x) (fst y)"
    unfolding conforming_def by blast
  from bspec [OF bspec [OF this p] q] show ?thesis by simp
qed

lemma flatten_dict_conforming: "wf_dict s \<Longrightarrow> conforming (flatten_dict s)"
proof (rule conformingI)
  assume wf: "wf_dict s"
  show "distinct (map fst (flatten_dict s))" using wf by (rule flatten_dict_distinct)
  show "\<And>v. ([], v) \<notin> set (flatten_dict s)" by (rule flatten_dict_no_empty_path)
  show "\<And>p v q w. (p, v) \<in> set (flatten_dict s) \<Longrightarrow> (q, w) \<in> set (flatten_dict s)
      \<Longrightarrow> \<not> strict_prefix p q"
    using wf by (rule flatten_dict_prefix_free)
qed

lemma conforming_filter:
  assumes c: "conforming fl"
  shows "conforming (filter P fl)"
proof (rule conformingI)
  show "distinct (map fst (filter P fl))"
    using conforming_distinct [OF c] by (rule distinct_map_filter)
next
  fix v show "([], v) \<notin> set (filter P fl)"
    using conforming_no_empty_path [OF c, of v] by simp
next
  fix p v q w assume "(p, v) \<in> set (filter P fl)" "(q, w) \<in> set (filter P fl)"
  then have "(p, v) \<in> set fl" "(q, w) \<in> set fl" by simp_all
  then show "\<not> strict_prefix p q" by (rule conforming_prefix_free [OF c])
qed


lemma conforming_tail:
  assumes c: "conforming (x # fl)"
  shows "conforming fl"
proof (rule conformingI)
  show "distinct (map fst fl)" using conforming_distinct [OF c] by simp
next
  fix v show "([], v) \<notin> set fl" using conforming_no_empty_path [OF c, of v] by simp
next
  fix p v q w assume "(p, v) \<in> set fl" "(q, w) \<in> set fl"
  then have "(p, v) \<in> set (x # fl)" "(q, w) \<in> set (x # fl)" by simp_all
  then show "\<not> strict_prefix p q" by (rule conforming_prefix_free [OF c])
qed

lemma flatten_dict_lookup:
  "wf_dict s \<Longrightarrow> (p, v) \<in> set (flatten_dict s) \<longleftrightarrow> lookup_path (Dict s) p = Some (Leaf v)"
proof (induction s arbitrary: p rule: flatten_dict.induct)
  case 1
  then show ?case by (cases p) simp_all
next
  case (2 k v' kvs)
  then have fresh: "k \<notin> fst ` set kvs" and wf: "wf_dict kvs"
    by (simp_all add: wf_dict_Cons)
  show ?case
  proof (cases p)
    case Nil
    then show ?thesis using flatten_dict_no_empty_path [of v kvs] by simp
  next
    case (Cons a p')
    show ?thesis
    proof (cases "a = k")
      case True
      have "(k # p', v) \<notin> set (flatten_dict kvs)"
        using fresh by (rule flatten_dict_fresh_head)
      then show ?thesis using Cons True by (cases p') auto
    next
      case False
      then show ?thesis using Cons "2.IH" [OF wf, of p] by auto
    qed
  qed
next
  case (3 k d kvs)
  then have fresh: "k \<notin> fst ` set kvs" and wf: "wf_dict kvs" and wfd: "wf_dict d"
    by (simp_all add: wf_dict_Cons wf_dict_def)
  show ?case
  proof (cases p)
    case Nil
    then show ?thesis
      using flatten_dict_no_empty_path [of v kvs] by (simp add: prepend_image_iff)
  next
    case (Cons a p')
    show ?thesis
    proof (cases "a = k")
      case True
      have "(k # p', v) \<notin> set (flatten_dict kvs)"
        using fresh by (rule flatten_dict_fresh_head)
      then show ?thesis
        using Cons True "3.IH"(1) [OF wfd, of p'] by (simp add: prepend_image_iff)
    next
      case False
      then show ?thesis
        using Cons "3.IH"(2) [OF wf, of p] by (simp add: prepend_image_iff)
    qed
  qed
qed

lemma unflatten_dict_Nil [simp]: "unflatten_dict [] = Inr []"
  by (simp add: unflatten_dict_def)

lemma set_path_error: "set_path d p v = Inl e \<Longrightarrow> e = UnflattenError"
  by (induction d p v arbitrary: e rule: set_path.induct)
    (auto split: option.splits tree.splits sum.splits)

lemma unflatten_loop_error: "unflatten_loop fl d = Inl e \<Longrightarrow> e = UnflattenError"
proof (induction fl arbitrary: d)
  case Nil
  then show ?case by simp
next
  case (Cons x fl)
  obtain p v where x: "x = (p, v)" by (cases x)
  show ?case
  proof (cases "set_path d p v")
    case (Inl e')
    with Cons.prems x have "e = e'" by simp
    with Inl show ?thesis by (simp add: set_path_error)
  next
    case (Inr d')
    with Cons.prems x have "unflatten_loop fl d' = Inl e" by simp
    then show ?thesis by (rule Cons.IH)
  qed
qed

lemma unflatten_dict_error: "unflatten_dict fl = Inl e \<Longrightarrow> e = UnflattenError"
  unfolding unflatten_dict_def by (rule unflatten_loop_error)

lemma unflatten_loop_append:
  "unflatten_loop (xs @ ys) d =
     (case unflatten_loop xs d of Inl e \<Rightarrow> Inl e | Inr d' \<Rightarrow> unflatten_loop ys d')"
proof (induction xs arbitrary: d)
  case Nil
  then show ?case by simp
next
  case (Cons x xs)
  obtain p v where x: "x = (p, v)" by (cases x)
  show ?case unfolding x using Cons.IH by (cases "set_path d p v") simp_all
qed

lemma update_last:
  "k \<notin> fst ` set acc \<Longrightarrow> AList.update k t (acc @ [(k, t0)]) = acc @ [(k, t)]"
  by (induction acc) auto

lemma update_new: "k \<notin> fst ` set acc \<Longrightarrow> AList.update k t acc = acc @ [(k, t)]"
  by (induction acc) auto

lemma map_of_last: "k \<notin> fst ` set acc \<Longrightarrow> map_of (acc @ [(k, t)]) k = Some t"
  by (induction acc) auto

lemma map_of_fresh: "k \<notin> fst ` set acc \<Longrightarrow> map_of acc k = None"
  by (simp add: map_of_eq_None_iff)

lemma set_path_under_last:
  assumes fresh: "k \<notin> fst ` set acc"
  shows "set_path (acc @ [(k, Dict sub)]) (k # a # q) w =
    (case set_path sub (a # q) w of Inl e \<Rightarrow> Inl e | Inr sub' \<Rightarrow> Inr (acc @ [(k, Dict sub')]))"
proof -
  have m: "map_of (acc @ [(k, Dict sub)]) k = Some (Dict sub)"
    using fresh by (rule map_of_last)
  show ?thesis
    by (cases "set_path sub (a # q) w")
      (simp_all add: m update_last [OF fresh] del: map_of_append)
qed

lemma set_path_new_key:
  assumes fresh: "k \<notin> fst ` set acc"
  shows "set_path acc (k # a # q) w =
    (case set_path [] (a # q) w of Inl e \<Rightarrow> Inl e | Inr sub' \<Rightarrow> Inr (acc @ [(k, Dict sub')]))"
proof -
  have m: "map_of acc k = None" using fresh by (rule map_of_fresh)
  show ?thesis
    by (cases "set_path [] (a # q) w") (simp_all add: m update_new [OF fresh])
qed

text \<open>Storing the entries under one key, once the key holds a dictionary.\<close>

lemma unflatten_loop_under_key:
  assumes fresh: "k \<notin> fst ` set acc"
  shows "\<forall>x \<in> set fl. fst x \<noteq> [] \<Longrightarrow>
    unflatten_loop (map (\<lambda>(p, v). (k # p, v)) fl) (acc @ [(k, Dict sub)]) =
      (case unflatten_loop fl sub of Inl e \<Rightarrow> Inl e | Inr sub' \<Rightarrow> Inr (acc @ [(k, Dict sub')]))"
proof (induction fl arbitrary: sub)
  case Nil
  then show ?case by simp
next
  case (Cons x fl)
  obtain q w where x: "x = (q, w)" by (cases x)
  from Cons.prems x obtain a q' where q: "q = a # q'" by (cases q) auto
  from Cons.prems have rest: "\<forall>x \<in> set fl. fst x \<noteq> []" by simp
  have "unflatten_loop (map (\<lambda>(p, v). (k # p, v)) (x # fl)) (acc @ [(k, Dict sub)])
      = (case set_path (acc @ [(k, Dict sub)]) (k # a # q') w of
           Inl e \<Rightarrow> Inl e
         | Inr d' \<Rightarrow> unflatten_loop (map (\<lambda>(p, v). (k # p, v)) fl) d')"
    unfolding x q by simp
  also have "\<dots> = (case set_path sub (a # q') w of
           Inl e \<Rightarrow> Inl e
         | Inr sub1 \<Rightarrow> unflatten_loop (map (\<lambda>(p, v). (k # p, v)) fl) (acc @ [(k, Dict sub1)]))"
    unfolding set_path_under_last [OF fresh] by (cases "set_path sub (a # q') w") simp_all
  also have "\<dots> = (case set_path sub (a # q') w of
           Inl e \<Rightarrow> Inl e
         | Inr sub1 \<Rightarrow> (case unflatten_loop fl sub1 of
              Inl e \<Rightarrow> Inl e | Inr sub' \<Rightarrow> Inr (acc @ [(k, Dict sub')])))"
    using Cons.IH [OF rest] by (cases "set_path sub (a # q') w") simp_all
  also have "\<dots> = (case unflatten_loop (x # fl) sub of
           Inl e \<Rightarrow> Inl e | Inr sub' \<Rightarrow> Inr (acc @ [(k, Dict sub')]))"
    unfolding x q by (cases "set_path sub (a # q') w") simp_all
  finally show ?case .
qed

lemma unflatten_loop_new_key:
  assumes fresh: "k \<notin> fst ` set acc" and ne: "fl \<noteq> []" and paths: "\<forall>x \<in> set fl. fst x \<noteq> []"
  shows "unflatten_loop (map (\<lambda>(p, v). (k # p, v)) fl) acc =
      (case unflatten_loop fl [] of Inl e \<Rightarrow> Inl e | Inr sub \<Rightarrow> Inr (acc @ [(k, Dict sub)]))"
proof -
  from ne obtain x rest where fl: "fl = x # rest" by (cases fl) auto
  obtain q w where x: "x = (q, w)" by (cases x)
  from paths fl x obtain a q' where q: "q = a # q'" by (cases q) auto
  from paths fl have rest: "\<forall>x \<in> set rest. fst x \<noteq> []" by simp
  have "unflatten_loop (map (\<lambda>(p, v). (k # p, v)) fl) acc
      = (case set_path acc (k # a # q') w of
           Inl e \<Rightarrow> Inl e
         | Inr d' \<Rightarrow> unflatten_loop (map (\<lambda>(p, v). (k # p, v)) rest) d')"
    unfolding fl x q by simp
  also have "\<dots> = (case set_path [] (a # q') w of
           Inl e \<Rightarrow> Inl e
         | Inr sub1 \<Rightarrow> unflatten_loop (map (\<lambda>(p, v). (k # p, v)) rest) (acc @ [(k, Dict sub1)]))"
    unfolding set_path_new_key [OF fresh] by (cases "set_path [] (a # q') w") simp_all
  also have "\<dots> = (case set_path [] (a # q') w of
           Inl e \<Rightarrow> Inl e
         | Inr sub1 \<Rightarrow> (case unflatten_loop rest sub1 of
              Inl e \<Rightarrow> Inl e | Inr sub' \<Rightarrow> Inr (acc @ [(k, Dict sub')])))"
    using unflatten_loop_under_key [OF fresh rest] by (cases "set_path [] (a # q') w") simp_all
  also have "\<dots> = (case unflatten_loop fl [] of
           Inl e \<Rightarrow> Inl e | Inr sub' \<Rightarrow> Inr (acc @ [(k, Dict sub')]))"
    unfolding fl x q by (cases "set_path [] (a # q') w") simp_all
  finally show ?thesis .
qed

lemma unflatten_loop_flatten:
  "distinct (map fst acc @ map fst s) \<Longrightarrow> wf_dict s \<Longrightarrow> \<forall>t \<in> snd ` set s. no_empty_dict t
     \<Longrightarrow> unflatten_loop (flatten_dict s) acc = Inr (acc @ s)"
proof (induction s arbitrary: acc rule: flatten_dict.induct)
  case 1
  then show ?case by simp
next
  case (2 k v kvs)
  from "2.prems"(1) have fresh: "k \<notin> fst ` set acc" by auto
  from "2.prems"(1) have d: "distinct (map fst (acc @ [(k, Leaf v)]) @ map fst kvs)" by auto
  from "2.prems"(2) have wf: "wf_dict kvs" by (simp add: wf_dict_Cons)
  from "2.prems"(3) have ne: "\<forall>t \<in> snd ` set kvs. no_empty_dict t" by simp
  from "2.IH" [OF d wf ne] show ?case by (simp add: update_new [OF fresh])
next
  case (3 k d kvs)
  from "3.prems"(1) have fresh: "k \<notin> fst ` set acc" by auto
  from "3.prems"(1) have dist: "distinct (map fst (acc @ [(k, Dict d)]) @ map fst kvs)" by auto
  from "3.prems"(2) have wf: "wf_dict kvs" and wfd: "wf_dict d"
    by (simp_all add: wf_dict_Cons wf_dict_def)
  from "3.prems"(3) have ne: "\<forall>t \<in> snd ` set kvs. no_empty_dict t"
    and dne: "d \<noteq> []" and ned: "\<forall>t \<in> snd ` set d. no_empty_dict t"
    by simp_all
  have "distinct (map fst ([] :: ('a \<times> ('a, 'b) tree) list) @ map fst d)"
    using wfd by (simp add: wf_dict_def)
  from "3.IH"(1) [OF this wfd ned] have sub: "unflatten_loop (flatten_dict d) [] = Inr d"
    by simp
  have fne: "flatten_dict d \<noteq> []" using dne ned by (rule flatten_dict_nonempty)
  have paths: "\<forall>x \<in> set (flatten_dict d). fst x \<noteq> []"
  proof
    fix x assume "x \<in> set (flatten_dict d)"
    then have "(fst x, snd x) \<in> set (flatten_dict d)" by simp
    from flatten_dict_heads [OF this] show "fst x \<noteq> []" by simp
  qed
  have under: "unflatten_loop (map (\<lambda>(p, v). (k # p, v)) (flatten_dict d)) acc
      = Inr (acc @ [(k, Dict d)])"
    using unflatten_loop_new_key [OF fresh fne paths] sub by simp
  have "unflatten_loop (flatten_dict ((k, Dict d) # kvs)) acc
      = unflatten_loop (flatten_dict kvs) (acc @ [(k, Dict d)])"
    by (simp add: unflatten_loop_append under)
  also have "\<dots> = Inr ((acc @ [(k, Dict d)]) @ kvs)"
    using dist wf ne by (rule "3.IH"(2))
  finally show ?case by simp
qed

lemma unflatten_flatten:
  assumes "wf_dict s" and "\<forall>t \<in> snd ` set s. no_empty_dict t"
  shows "unflatten_dict (flatten_dict s) = Inr s"
proof -
  have "distinct (map fst ([] :: ('a \<times> ('a, 'b) tree) list) @ map fst s)"
    using assms(1) by (simp add: wf_dict_def)
  from unflatten_loop_flatten [OF this assms] show ?thesis
    by (simp add: unflatten_dict_def)
qed


lemma set_flatten_dict_Cons:
  "set (flatten_dict ((k, t) # d)) = set (flatten_dict [(k, t)]) \<union> set (flatten_dict d)"
  by (cases t) auto

lemma flatten_dict_single_head:
  assumes "x \<in> set (flatten_dict [(k, t)])"
  shows "fst x \<noteq> [] \<and> hd (fst x) = k"
proof -
  from assms have "(fst x, snd x) \<in> set (flatten_dict [(k, t)])" by simp
  from flatten_dict_heads [OF this] show ?thesis by simp
qed

lemma flatten_dict_head_key:
  assumes "x \<in> set (flatten_dict d)"
  shows "fst x \<noteq> [] \<and> hd (fst x) \<in> fst ` set d"
proof -
  from assms have "(fst x, snd x) \<in> set (flatten_dict d)" by simp
  from flatten_dict_heads [OF this] show ?thesis .
qed

lemma flatten_dict_update:
  "wf_dict d \<Longrightarrow>
     set (flatten_dict (AList.update k t d))
       = {x \<in> set (flatten_dict d). hd (fst x) \<noteq> k} \<union> set (flatten_dict [(k, t)])"
proof (induction d)
  case Nil
  then show ?case by simp
next
  case (Cons e d)
  obtain k0 t0 where e: "e = (k0, t0)" by (cases e)
  from Cons.prems have fresh: "k0 \<notin> fst ` set d" and wf: "wf_dict d"
    unfolding e by (simp_all add: wf_dict_Cons)
  show ?case
  proof (cases "k0 = k")
    case True
    have a: "{x \<in> set (flatten_dict [(k, t0)]). hd (fst x) \<noteq> k} = {}"
      using flatten_dict_single_head by fastforce
    have b: "{x \<in> set (flatten_dict d). hd (fst x) \<noteq> k} = set (flatten_dict d)"
      using flatten_dict_head_key [of _ d] fresh True by fastforce
    have "set (flatten_dict (AList.update k t (e # d)))
        = set (flatten_dict [(k, t)]) \<union> set (flatten_dict d)"
      unfolding e using True by (simp add: set_flatten_dict_Cons [of k t d])
    also have "\<dots> = {x \<in> set (flatten_dict (e # d)). hd (fst x) \<noteq> k}
        \<union> set (flatten_dict [(k, t)])"
      unfolding e True set_flatten_dict_Cons [of k t0 d] using a b by blast
    finally show ?thesis .
  next
    case False
    have a: "{x \<in> set (flatten_dict [(k0, t0)]). hd (fst x) \<noteq> k} = set (flatten_dict [(k0, t0)])"
      using flatten_dict_single_head [of _ k0 t0] False by fastforce
    have "set (flatten_dict (AList.update k t (e # d)))
        = set (flatten_dict [(k0, t0)]) \<union> set (flatten_dict (AList.update k t d))"
      unfolding e using False by (simp add: set_flatten_dict_Cons [of k0 t0 "AList.update k t d"])
    also have "\<dots> = set (flatten_dict [(k0, t0)])
        \<union> ({x \<in> set (flatten_dict d). hd (fst x) \<noteq> k} \<union> set (flatten_dict [(k, t)]))"
      by (simp only: Cons.IH [OF wf])
    also have "\<dots> = {x \<in> set (flatten_dict (e # d)). hd (fst x) \<noteq> k}
        \<union> set (flatten_dict [(k, t)])"
      unfolding e set_flatten_dict_Cons [of k0 t0 d] using a by blast
    finally show ?thesis .
  qed
qed

lemma flatten_dict_at_key:
  "wf_dict d \<Longrightarrow> map_of d k = Some t \<Longrightarrow>
     {x \<in> set (flatten_dict d). hd (fst x) = k} = set (flatten_dict [(k, t)])"
proof (induction d)
  case Nil
  then show ?case by simp
next
  case (Cons e d)
  obtain k0 t0 where e: "e = (k0, t0)" by (cases e)
  from Cons.prems(1) have fresh: "k0 \<notin> fst ` set d" and wf: "wf_dict d"
    unfolding e by (simp_all add: wf_dict_Cons)
  show ?case
  proof (cases "k0 = k")
    case True
    with Cons.prems(2) e have t: "t0 = t" by simp
    have a: "{x \<in> set (flatten_dict [(k, t)]). hd (fst x) = k} = set (flatten_dict [(k, t)])"
      using flatten_dict_single_head [of _ k t] by fastforce
    have b: "{x \<in> set (flatten_dict d). hd (fst x) = k} = {}"
      using flatten_dict_head_key [of _ d] fresh True by fastforce
    show ?thesis
      unfolding e True t set_flatten_dict_Cons [of k t d] using a b by blast
  next
    case False
    with Cons.prems(2) e have "map_of d k = Some t" by simp
    from Cons.IH [OF wf this]
    have ih: "{x \<in> set (flatten_dict d). hd (fst x) = k} = set (flatten_dict [(k, t)])" .
    have a: "{x \<in> set (flatten_dict [(k0, t0)]). hd (fst x) = k} = {}"
      using flatten_dict_single_head [of _ k0 t0] False by fastforce
    show ?thesis
      unfolding e set_flatten_dict_Cons [of k0 t0 d] using a ih by blast
  qed
qed

lemma wf_dict_map_of: "wf_dict d \<Longrightarrow> map_of d k = Some t \<Longrightarrow> wf_tree t"
proof (induction d)
  case Nil
  then show ?case by simp
next
  case (Cons e d)
  obtain k0 t0 where e: "e = (k0, t0)" by (cases e)
  from Cons.prems(1) have "wf_tree t0" "wf_dict d" unfolding e by (simp_all add: wf_dict_Cons)
  with Cons e show ?case by (cases "k0 = k") simp_all
qed

lemma keys_update: "fst ` set (AList.update k t d) = insert k (fst ` set d)"
  by (induction d) auto

lemma wf_dict_update: "wf_dict d \<Longrightarrow> wf_tree t \<Longrightarrow> wf_dict (AList.update k t d)"
proof (induction d)
  case Nil
  then show ?case by (simp add: wf_dict_def)
next
  case (Cons e d)
  obtain k0 t0 where e: "e = (k0, t0)" by (cases e)
  from Cons.prems(1) have fresh: "k0 \<notin> fst ` set d" and t0: "wf_tree t0" and wf: "wf_dict d"
    unfolding e by (simp_all add: wf_dict_Cons)
  show ?case
  proof (cases "k0 = k")
    case True
    with fresh wf Cons.prems(2) show ?thesis unfolding e by (simp add: wf_dict_Cons)
  next
    case False
    with fresh have "k0 \<notin> fst ` set (AList.update k t d)" by (simp add: keys_update)
    with False t0 Cons.IH [OF wf Cons.prems(2)] show ?thesis
      unfolding e by (simp add: wf_dict_Cons)
  qed
qed


lemma flatten_dict_single_Dict:
  "set (flatten_dict [(k, Dict sub)]) = (\<lambda>(p, v). (k # p, v)) ` set (flatten_dict sub)"
  by simp

lemma set_path_sound:
  "wf_dict d \<Longrightarrow> p \<noteq> [] \<Longrightarrow>
   \<forall>x \<in> set (flatten_dict d). \<not> prefix (fst x) p \<and> \<not> prefix p (fst x) \<Longrightarrow>
     \<exists>d'. set_path d p v = Inr d' \<and> wf_dict d'
       \<and> set (flatten_dict d') = insert (p, v) (set (flatten_dict d))
       \<and> fst ` set d' = insert (hd p) (fst ` set d)"
proof (induction d p v rule: set_path.induct)
  case (1 cursor v)
  then show ?case by simp
next
  case (2 cursor k v)
  let ?d = "AList.update k (Leaf v) cursor"
  have wf: "wf_dict ?d" using "2.prems"(1) by (rule wf_dict_update) simp
  have none: "{x \<in> set (flatten_dict cursor). hd (fst x) \<noteq> k} = set (flatten_dict cursor)"
  proof -
    have "hd (fst x) \<noteq> k" if x: "x \<in> set (flatten_dict cursor)" for x
    proof
      assume h: "hd (fst x) = k"
      from flatten_dict_head_key [OF x] h have "prefix [k] (fst x)"
        by (cases "fst x") simp_all
      with "2.prems"(3) x show False by blast
    qed
    then show ?thesis by blast
  qed
  have "set (flatten_dict ?d) = insert ([k], v) (set (flatten_dict cursor))"
    unfolding flatten_dict_update [OF "2.prems"(1)] none by simp
  with wf show ?case by (simp add: keys_update)
next
  case (3 cursor k k' p v)
  let ?p = "k' # p"
  show ?case
  proof (cases "map_of cursor k")
    case None
    have e: "\<forall>x \<in> set (flatten_dict ([] :: ('a \<times> ('a, 'b) tree) list)).
        \<not> prefix (fst x) ?p \<and> \<not> prefix ?p (fst x)"
      by simp
    have wfe: "wf_dict ([] :: ('a \<times> ('a, 'b) tree) list)" by (simp add: wf_dict_def)
    from "3.IH"(1) [OF None wfe _ e] obtain sub where sub: "set_path [] ?p v = Inr sub"
      and wfs: "wf_dict sub" and fs: "set (flatten_dict sub) = {(?p, v)}"
      by auto
    let ?d = "AList.update k (Dict sub) cursor"
    have wf: "wf_dict ?d"
      using "3.prems"(1) by (rule wf_dict_update) (use wfs in \<open>simp add: wf_dict_def\<close>)
    from None have fresh: "k \<notin> fst ` set cursor" by (simp add: map_of_eq_None_iff)
    have all: "{x \<in> set (flatten_dict cursor). hd (fst x) \<noteq> k} = set (flatten_dict cursor)"
      using flatten_dict_head_key [of _ cursor] fresh by fastforce
    have "set (flatten_dict ?d) = insert (k # ?p, v) (set (flatten_dict cursor))"
      unfolding flatten_dict_update [OF "3.prems"(1)] all flatten_dict_single_Dict fs by simp
    moreover have "set_path cursor (k # k' # p) v = Inr ?d"
      using None sub by simp
    ultimately show ?thesis using wf by (simp add: keys_update)
  next
    case (Some t)
    from flatten_dict_at_key [OF "3.prems"(1) Some]
    have at: "{x \<in> set (flatten_dict cursor). hd (fst x) = k} = set (flatten_dict [(k, t)])" .
    show ?thesis
    proof (cases t)
      case (Leaf w)
      have "([k], w) \<in> set (flatten_dict [(k, t)])" unfolding Leaf by simp
      with at have "([k], w) \<in> set (flatten_dict cursor)" by blast
      with "3.prems"(3) have "\<not> prefix (fst ([k], w)) (k # k' # p)" by blast
      then show ?thesis by simp
    next
      case (Dict sub0)
      from Some Dict have look: "map_of cursor k = Some (Dict sub0)" by simp
      from wf_dict_map_of [OF "3.prems"(1) look] have wf0: "wf_dict sub0"
        by (simp add: wf_dict_def)
      have under: "(\<lambda>(q, w). (k # q, w)) ` set (flatten_dict sub0) \<subseteq> set (flatten_dict cursor)"
        using at unfolding Dict flatten_dict_single_Dict by blast
      have hyp: "\<forall>x \<in> set (flatten_dict sub0). \<not> prefix (fst x) ?p \<and> \<not> prefix ?p (fst x)"
      proof
        fix x assume "x \<in> set (flatten_dict sub0)"
        then have "(k # fst x, snd x) \<in> (\<lambda>(q, w). (k # q, w)) ` set (flatten_dict sub0)"
          by force
        with under have "(k # fst x, snd x) \<in> set (flatten_dict cursor)" by blast
        with "3.prems"(3) have "\<not> prefix (fst (k # fst x, snd x)) (k # k' # p)
            \<and> \<not> prefix (k # k' # p) (fst (k # fst x, snd x))"
          by blast
        then show "\<not> prefix (fst x) ?p \<and> \<not> prefix ?p (fst x)" by simp
      qed
      from "3.IH"(2) [OF Some Dict wf0 _ hyp] obtain sub where sub: "set_path sub0 ?p v = Inr sub"
        and wfs: "wf_dict sub"
        and fs: "set (flatten_dict sub) = insert (?p, v) (set (flatten_dict sub0))"
        by auto
      let ?d = "AList.update k (Dict sub) cursor"
      have wf: "wf_dict ?d"
        using "3.prems"(1) by (rule wf_dict_update) (use wfs in \<open>simp add: wf_dict_def\<close>)
      have part: "set (flatten_dict cursor)
          = {x \<in> set (flatten_dict cursor). hd (fst x) \<noteq> k}
            \<union> (\<lambda>(q, w). (k # q, w)) ` set (flatten_dict sub0)"
        using at unfolding Dict flatten_dict_single_Dict by blast
      have "set (flatten_dict ?d)
          = {x \<in> set (flatten_dict cursor). hd (fst x) \<noteq> k}
            \<union> (\<lambda>(q, w). (k # q, w)) ` insert (?p, v) (set (flatten_dict sub0))"
        unfolding flatten_dict_update [OF "3.prems"(1)] flatten_dict_single_Dict fs by simp
      also have "\<dots> = insert (k # ?p, v) (set (flatten_dict cursor))"
        using part by auto
      finally have fd: "set (flatten_dict ?d) = insert (k # ?p, v) (set (flatten_dict cursor))" .
      have "set_path cursor (k # k' # p) v = Inr ?d"
        using look sub by simp
      with fd wf show ?thesis by (simp add: keys_update)
    qed
  qed
qed


lemma unflatten_loop_sound:
  "wf_dict d \<Longrightarrow> distinct (map fst fl) \<Longrightarrow> \<forall>x \<in> set fl. fst x \<noteq> [] \<Longrightarrow>
   \<forall>x \<in> set (flatten_dict d) \<union> set fl. \<forall>y \<in> set (flatten_dict d) \<union> set fl.
      \<not> strict_prefix (fst x) (fst y) \<Longrightarrow>
   fst ` set (flatten_dict d) \<inter> fst ` set fl = {} \<Longrightarrow>
     \<exists>d'. unflatten_loop fl d = Inr d' \<and> wf_dict d'
       \<and> set (flatten_dict d') = set (flatten_dict d) \<union> set fl
       \<and> fst ` set d' = fst ` set d \<union> (\<lambda>x. hd (fst x)) ` set fl"
proof (induction fl arbitrary: d)
  case Nil
  then show ?case by simp
next
  case (Cons x fl)
  obtain p v where x: "x = (p, v)" by (cases x)
  from Cons.prems(3) have pne: "p \<noteq> []" unfolding x by simp
  have hyp: "\<forall>y \<in> set (flatten_dict d). \<not> prefix (fst y) p \<and> \<not> prefix p (fst y)"
  proof
    fix y assume y: "y \<in> set (flatten_dict d)"
    then have "fst y \<in> fst ` set (flatten_dict d)" by simp
    with Cons.prems(5) have ne: "fst y \<noteq> p" unfolding x by auto
    from y Cons.prems(4) have "\<not> strict_prefix (fst y) (fst x)" "\<not> strict_prefix (fst x) (fst y)"
      by simp_all
    with ne show "\<not> prefix (fst y) p \<and> \<not> prefix p (fst y)"
      unfolding x by (auto simp: strict_prefix_def)
  qed
  from set_path_sound [OF Cons.prems(1) pne hyp, of v] obtain d1
    where d1: "set_path d p v = Inr d1" and wf1: "wf_dict d1"
      and f1: "set (flatten_dict d1) = insert (p, v) (set (flatten_dict d))"
      and k1: "fst ` set d1 = insert (hd p) (fst ` set d)"
    by blast
  have dist: "distinct (map fst fl)" and pfl: "p \<notin> fst ` set fl"
    using Cons.prems(2) unfolding x by simp_all
  have nonempty: "\<forall>x \<in> set fl. fst x \<noteq> []" using Cons.prems(3) by simp
  have same: "set (flatten_dict d1) \<union> set fl = set (flatten_dict d) \<union> set (x # fl)"
    unfolding f1 x by auto
  have free: "\<forall>a \<in> set (flatten_dict d1) \<union> set fl. \<forall>b \<in> set (flatten_dict d1) \<union> set fl.
      \<not> strict_prefix (fst a) (fst b)"
    unfolding same by (rule Cons.prems(4))
  have disj: "fst ` set (flatten_dict d1) \<inter> fst ` set fl = {}"
    unfolding f1 using Cons.prems(5) pfl unfolding x by auto
  from Cons.IH [OF wf1 dist nonempty free disj] obtain d'
    where r: "unflatten_loop fl d1 = Inr d'" and wf': "wf_dict d'"
      and f': "set (flatten_dict d') = set (flatten_dict d1) \<union> set fl"
      and k': "fst ` set d' = fst ` set d1 \<union> (\<lambda>x. hd (fst x)) ` set fl"
    by blast
  have "unflatten_loop (x # fl) d = Inr d'" unfolding x using d1 r by simp
  moreover have "set (flatten_dict d') = set (flatten_dict d) \<union> set (x # fl)"
    unfolding f' same ..
  moreover have "fst ` set d' = fst ` set d \<union> (\<lambda>x. hd (fst x)) ` set (x # fl)"
    unfolding k' k1 x by auto
  ultimately show ?case using wf' by blast
qed

lemma unflatten_dict_conforming:
  assumes c: "conforming fl"
  shows "\<exists>d. unflatten_dict fl = Inr d \<and> wf_dict d \<and> set (flatten_dict d) = set fl
    \<and> fst ` set d = {k. \<exists>p v. (k # p, v) \<in> set fl}"
proof -
  let ?e = "[] :: ('a \<times> ('a, 'b) tree) list"
  have wfe: "wf_dict ?e" by (simp add: wf_dict_def)
  have ne: "\<forall>x \<in> set fl. fst x \<noteq> []"
  proof
    fix x assume "x \<in> set fl"
    then have "(fst x, snd x) \<in> set fl" by simp
    with conforming_no_empty_path [OF c, of "snd x"] show "fst x \<noteq> []" by metis
  qed
  have free: "\<forall>x \<in> set (flatten_dict ?e) \<union> set fl. \<forall>y \<in> set (flatten_dict ?e) \<union> set fl.
      \<not> strict_prefix (fst x) (fst y)"
  proof (intro ballI)
    fix x y assume "x \<in> set (flatten_dict ?e) \<union> set fl" "y \<in> set (flatten_dict ?e) \<union> set fl"
    then have "(fst x, snd x) \<in> set fl" "(fst y, snd y) \<in> set fl" by simp_all
    then show "\<not> strict_prefix (fst x) (fst y)" by (rule conforming_prefix_free [OF c])
  qed
  have disj: "fst ` set (flatten_dict ?e) \<inter> fst ` set fl = {}" by simp
  from unflatten_loop_sound [OF wfe conforming_distinct [OF c] ne free disj] obtain d
    where d: "unflatten_loop fl ?e = Inr d" and wf: "wf_dict d"
      and f: "set (flatten_dict d) = set fl"
      and k: "fst ` set d = (\<lambda>x. hd (fst x)) ` set fl"
    by auto
  have "(\<lambda>x. hd (fst x)) ` set fl = {k. \<exists>p v. (k # p, v) \<in> set fl}"
  proof (rule set_eqI)
    fix a
    show "a \<in> (\<lambda>x. hd (fst x)) ` set fl \<longleftrightarrow> a \<in> {k. \<exists>p v. (k # p, v) \<in> set fl}"
    proof
      assume "a \<in> (\<lambda>x. hd (fst x)) ` set fl"
      then obtain x where x: "x \<in> set fl" and a: "a = hd (fst x)" by blast
      from ne x have "fst x \<noteq> []" by blast
      then have "fst x = a # tl (fst x)" using a by simp
      then have "(a # tl (fst x), snd x) = x" by (metis prod.collapse)
      with x have "(a # tl (fst x), snd x) \<in> set fl" by simp
      then show "a \<in> {k. \<exists>p v. (k # p, v) \<in> set fl}" by blast
    next
      assume "a \<in> {k. \<exists>p v. (k # p, v) \<in> set fl}"
      then obtain p v where "(a # p, v) \<in> set fl" by blast
      then have "hd (fst (a # p, v)) \<in> (\<lambda>x. hd (fst x)) ` set fl" by (rule imageI)
      then show "a \<in> (\<lambda>x. hd (fst x)) ` set fl" by simp
    qed
  qed
  with d wf f k show ?thesis unfolding unflatten_dict_def by simp
qed

lemma unflatten_dict_complete: "conforming fl \<Longrightarrow> \<exists>d. unflatten_dict fl = Inr d"
  using unflatten_dict_conforming by blast

lemma unflatten_dict_sound:
  assumes "conforming fl" and "unflatten_dict fl = Inr d"
  shows "wf_dict d \<and> set (flatten_dict d) = set fl
    \<and> fst ` set d = {k. \<exists>p v. (k # p, v) \<in> set fl}"
  using unflatten_dict_conforming [OF assms(1)] assms(2) by auto

text \<open>The entry stored last under a one-key path replaces what the key holds.\<close>

lemma unflatten_dict_snoc_key:
  "unflatten_dict (fl @ [([k], v)]) =
     (case unflatten_dict fl of Inl e \<Rightarrow> Inl e | Inr d \<Rightarrow> Inr (AList.update k (Leaf v) d))"
  unfolding unflatten_dict_def unflatten_loop_append
  by (cases "unflatten_loop fl []") simp_all

lemma flatten_dict_sub:
  assumes wf: "wf_dict d" and look: "map_of d k = Some (Dict sub)"
  shows "set (flatten_dict sub) = set (under_key k (flatten_dict d))"
proof (rule set_eqI)
  fix x :: "'a list \<times> 'b"
  obtain q w where x: "x = (q, w)" by (cases x)
  from wf_dict_map_of [OF wf look] have wfs: "wf_dict sub" by (simp add: wf_dict_def)
  have "x \<in> set (flatten_dict sub) \<longleftrightarrow> lookup_path (Dict sub) q = Some (Leaf w)"
    unfolding x using wfs by (rule flatten_dict_lookup)
  also have "\<dots> \<longleftrightarrow> lookup_path (Dict d) (k # q) = Some (Leaf w)"
    using look by simp
  also have "\<dots> \<longleftrightarrow> (k # q, w) \<in> set (flatten_dict d)"
    using flatten_dict_lookup [OF wf, of "k # q" w] by simp
  also have "\<dots> \<longleftrightarrow> x \<in> set (under_key k (flatten_dict d))"
    unfolding x by (simp add: set_under_key)
  finally show "x \<in> set (flatten_dict sub) \<longleftrightarrow> x \<in> set (under_key k (flatten_dict d))" .
qed

lemma length_flatten_dict: "length (flatten_dict s) = count_leaves (Dict s)"
  by (induction s rule: flatten_dict.induct) simp_all

lemma path_in_flatten_dict:
  assumes "p \<in> fst ` set (flatten_dict s)"
  obtains a p' where "p = a # p'" "a \<in> fst ` set s"
proof -
  from assms obtain v where m: "(p, v) \<in> set (flatten_dict s)" by force
  from flatten_dict_heads [OF m] have "p \<noteq> []" "hd p \<in> fst ` set s" by simp_all
  then show ?thesis using that [of "hd p" "tl p"] by simp
qed

lemma dfs_before_fresh:
  assumes fresh: "k \<notin> fst ` set kvs"
    and x: "x \<in> fst ` set (flatten_dict kvs)" and y: "y \<in> fst ` set (flatten_dict kvs)"
    and b: "dfs_before (Dict kvs) x y"
  shows "dfs_before (Dict ((k, t) # kvs)) x y"
proof -
  from x obtain a p where xa: "x = a # p" and a: "a \<in> fst ` set kvs"
    by (rule path_in_flatten_dict)
  from y obtain c q where yc: "y = c # q" and c: "c \<in> fst ` set kvs"
    by (rule path_in_flatten_dict)
  from a c fresh have "a \<noteq> k" "c \<noteq> k" by auto
  then show ?thesis using b unfolding xa yc by (cases "a = c") simp_all
qed

lemma map_fst_prepend:
  "map fst (map (\<lambda>(p, v). (k # p, v)) xs) = map ((#) k) (map fst xs)"
  by (induction xs) auto

lemma flatten_dict_dfs_order:
  "wf_dict s \<Longrightarrow> sorted_wrt (dfs_before (Dict s)) (map fst (flatten_dict s))"
proof (induction s rule: flatten_dict.induct)
  case 1
  then show ?case by simp
next
  case (2 k v kvs)
  then have fresh: "k \<notin> fst ` set kvs" and wf: "wf_dict kvs"
    by (simp_all add: wf_dict_Cons)
  have tail: "sorted_wrt (dfs_before (Dict ((k, Leaf v) # kvs))) (map fst (flatten_dict kvs))"
  proof (rule sorted_wrt_mono_rel [OF _ "2.IH" [OF wf]])
    fix x y assume "x \<in> set (map fst (flatten_dict kvs))" "y \<in> set (map fst (flatten_dict kvs))"
      and "dfs_before (Dict kvs) x y"
    then show "dfs_before (Dict ((k, Leaf v) # kvs)) x y"
      using dfs_before_fresh [OF fresh] by simp
  qed
  have head: "\<forall>y \<in> set (map fst (flatten_dict kvs)). dfs_before (Dict ((k, Leaf v) # kvs)) [k] y"
  proof
    fix y assume "y \<in> set (map fst (flatten_dict kvs))"
    then have "y \<in> fst ` set (flatten_dict kvs)" by simp
    then obtain c q where yc: "y = c # q" and c: "c \<in> fst ` set kvs"
      by (rule path_in_flatten_dict)
    from c fresh have "c \<noteq> k" by auto
    then show "dfs_before (Dict ((k, Leaf v) # kvs)) [k] y"
      using c unfolding yc by simp
  qed
  show ?case using head tail by simp
next
  case (3 k d kvs)
  then have fresh: "k \<notin> fst ` set kvs" and wf: "wf_dict kvs" and wfd: "wf_dict d"
    by (simp_all add: wf_dict_Cons wf_dict_def)
  let ?t = "Dict ((k, Dict d) # kvs)"
  have tail: "sorted_wrt (dfs_before ?t) (map fst (flatten_dict kvs))"
  proof (rule sorted_wrt_mono_rel [OF _ "3.IH"(2) [OF wf]])
    fix x y assume "x \<in> set (map fst (flatten_dict kvs))" "y \<in> set (map fst (flatten_dict kvs))"
      and "dfs_before (Dict kvs) x y"
    then show "dfs_before ?t x y"
      using dfs_before_fresh [OF fresh] by simp
  qed
  have sub: "sorted_wrt (dfs_before ?t) (map ((#) k) (map fst (flatten_dict d)))"
    using "3.IH"(1) [OF wfd] by (simp add: sorted_wrt_map del: map_map)
  have cross: "\<forall>x \<in> set (map ((#) k) (map fst (flatten_dict d))).
      \<forall>y \<in> set (map fst (flatten_dict kvs)). dfs_before ?t x y"
  proof (intro ballI)
    fix x y assume "x \<in> set (map ((#) k) (map fst (flatten_dict d)))"
      and "y \<in> set (map fst (flatten_dict kvs))"
    then obtain p where xp: "x = k # p" and "y \<in> fst ` set (flatten_dict kvs)" by auto
    then obtain c q where yc: "y = c # q" and c: "c \<in> fst ` set kvs"
      using path_in_flatten_dict by metis
    from c fresh have "c \<noteq> k" by auto
    then show "dfs_before ?t x y" using c unfolding xp yc by simp
  qed
  have "map fst (flatten_dict ((k, Dict d) # kvs))
      = map ((#) k) (map fst (flatten_dict d)) @ map fst (flatten_dict kvs)"
    by (simp add: map_fst_prepend del: map_map)
  then show ?case using sub tail cross by (simp only: sorted_wrt_append)
qed

lemma first_match_le: "first_match ps p v \<le> length ps"
  by (induction ps) auto

lemma first_match_lt_iff:
  "i < length ps \<Longrightarrow>
     first_match ps p v = i \<longleftrightarrow> (ps ! i) p v \<and> (\<forall>j < i. \<not> (ps ! j) p v)"
proof (induction ps arbitrary: i)
  case Nil
  then show ?case by simp
next
  case (Cons f fs)
  show ?case
  proof (cases i)
    case 0
    then show ?thesis by simp
  next
    case (Suc i')
    with Cons.prems have i': "i' < length fs" by simp
    have "(\<forall>j < Suc i'. \<not> ((f # fs) ! j) p v) \<longleftrightarrow> \<not> f p v \<and> (\<forall>j < i'. \<not> (fs ! j) p v)"
      by (auto simp: less_Suc_eq_0_disj)
    then show ?thesis using Cons.IH [OF i'] Suc by auto
  qed
qed

lemma first_match_none_iff:
  "first_match ps p v = length ps \<longleftrightarrow> (\<forall>j < length ps. \<not> (ps ! j) p v)"
proof (induction ps)
  case Nil
  then show ?case by simp
next
  case (Cons f fs)
  have "(\<forall>j < Suc (length fs). \<not> ((f # fs) ! j) p v)
      \<longleftrightarrow> \<not> f p v \<and> (\<forall>j < length fs. \<not> (fs ! j) p v)"
    by (auto simp: less_Suc_eq_0_disj)
  then show ?case using Cons.IH by auto
qed

lemma update_fresh: "k \<notin> fst ` set al \<Longrightarrow> AList.update k v al = al @ [(k, v)]"
  by (induction al) auto

text \<open>The loop of \<open>_split_state\<close> over the entries of a flat state with distinct paths.\<close>

lemma foldl_assign:
  assumes "distinct (map fst fl)"
    and "\<forall>b \<in> set acc. fst ` set b \<inter> fst ` set fl = {}"
    and "length acc = Suc (length ps)"
  shows "length (foldl (assign ps) acc fl) = length acc
    \<and> (\<forall>i < length acc. foldl (assign ps) acc fl ! i
          = acc ! i @ filter (\<lambda>(p, v). first_match ps p v = i) fl)"
  using assms
proof (induction fl arbitrary: acc)
  case Nil
  then show ?case by simp
next
  case (Cons x fl)
  obtain p v where x: "x = (p, v)" by (cases x)
  let ?j = "first_match ps p v"
  have j: "?j < length acc" using first_match_le [of ps p v] Cons.prems(3) by simp
  have "acc ! ?j \<in> set acc" using j by simp
  with Cons.prems(2) have "fst ` set (acc ! ?j) \<inter> fst ` set (x # fl) = {}" by blast
  then have fresh: "p \<notin> fst ` set (acc ! ?j)" unfolding x by auto
  let ?acc = "acc[?j := acc ! ?j @ [(p, v)]]"
  have step: "assign ps acc x = ?acc"
    unfolding assign_def x by (simp add: Let_def update_fresh [OF fresh])
  have d: "distinct (map fst fl)" using Cons.prems(1) by simp
  have pfl: "p \<notin> fst ` set fl" using Cons.prems(1) unfolding x by simp
  have disj: "\<forall>b \<in> set ?acc. fst ` set b \<inter> fst ` set fl = {}"
  proof
    fix b assume "b \<in> set ?acc"
    then have "b \<in> insert (acc ! ?j @ [(p, v)]) (set acc)"
      using set_update_subset_insert by fastforce
    then consider "b = acc ! ?j @ [(p, v)]" | "b \<in> set acc" by blast
    then show "fst ` set b \<inter> fst ` set fl = {}"
    proof cases
      case 1
      have "fst ` set (acc ! ?j) \<inter> fst ` set fl = {}"
        using Cons.prems(2) \<open>acc ! ?j \<in> set acc\<close> by auto
      with pfl 1 show ?thesis by auto
    next
      case 2
      with Cons.prems(2) show ?thesis by auto
    qed
  qed
  have len: "length ?acc = Suc (length ps)" using Cons.prems(3) by simp
  from Cons.IH [OF d disj len]
  have ih1: "length (foldl (assign ps) ?acc fl) = length acc"
    and ih2: "\<forall>i < length acc. foldl (assign ps) ?acc fl ! i
        = ?acc ! i @ filter (\<lambda>(p, v). first_match ps p v = i) fl"
    by simp_all
  have "\<forall>i < length acc. foldl (assign ps) acc (x # fl) ! i
      = acc ! i @ filter (\<lambda>(p, v). first_match ps p v = i) (x # fl)"
  proof (intro allI impI)
    fix i assume i: "i < length acc"
    have "foldl (assign ps) acc (x # fl) ! i
        = ?acc ! i @ filter (\<lambda>(p, v). first_match ps p v = i) fl"
      using ih2 i step by simp
    also have "\<dots> = acc ! i @ filter (\<lambda>(p, v). first_match ps p v = i) (x # fl)"
      using i j unfolding x by (cases "i = ?j") simp_all
    finally show "foldl (assign ps) acc (x # fl) ! i
        = acc ! i @ filter (\<lambda>(p, v). first_match ps p v = i) (x # fl)" .
  qed
  then show ?case using ih1 step by simp
qed

lemma partition_flat_buckets:
  assumes "distinct (map fst fl)"
  shows "partition_flat ps fl
    = map (\<lambda>i. filter (\<lambda>(p, v). first_match ps p v = i) fl) [0 ..< Suc (length ps)]"
proof -
  define acc where "acc = replicate (Suc (length ps)) ([] :: ('a list \<times> 'b) list)"
  have pf: "partition_flat ps fl = foldl (assign ps) acc fl"
    unfolding partition_flat_def acc_def by (simp only: Suc_eq_plus1)
  have len: "length acc = Suc (length ps)" unfolding acc_def by (simp only: length_replicate)
  have nth: "\<And>i. i < Suc (length ps) \<Longrightarrow> acc ! i = []"
    unfolding acc_def by (simp only: nth_replicate)
  have "set acc \<subseteq> {[]}" unfolding acc_def by (simp only: set_replicate_conv_if) simp
  then have "\<forall>b \<in> set acc. fst ` set b \<inter> fst ` set fl = {}" by auto
  from foldl_assign [OF assms this len]
  have f1: "length (foldl (assign ps) acc fl) = Suc (length ps)"
    and f2: "\<forall>i < Suc (length ps). foldl (assign ps) acc fl ! i
          = acc ! i @ filter (\<lambda>(p, v). first_match ps p v = i) fl"
    using len by simp_all
  show ?thesis
  proof (rule nth_equalityI)
    show "length (partition_flat ps fl)
        = length (map (\<lambda>i. filter (\<lambda>(p, v). first_match ps p v = i) fl) [0 ..< Suc (length ps)])"
      using f1 pf by simp
  next
    fix i assume "i < length (partition_flat ps fl)"
    then have i: "i < Suc (length ps)" using f1 pf by simp
    have "partition_flat ps fl ! i = acc ! i @ filter (\<lambda>(p, v). first_match ps p v = i) fl"
      using f2 i pf by simp
    also have "\<dots> = filter (\<lambda>(p, v). first_match ps p v = i) fl"
      using nth [OF i] by simp
    also have "\<dots> = map (\<lambda>i. filter (\<lambda>(p, v). first_match ps p v = i) fl) [0 ..< Suc (length ps)] ! i"
      using i by (simp only: nth_map_upt) simp
    finally show "partition_flat ps fl ! i
        = map (\<lambda>i. filter (\<lambda>(p, v). first_match ps p v = i) fl) [0 ..< Suc (length ps)] ! i" .
  qed
qed

lemma from_flat_paths_error: "from_flat_paths fls = Inl e \<Longrightarrow> e = UnflattenError"
proof (induction fls arbitrary: e)
  case Nil
  then show ?case by simp
next
  case (Cons fl fls)
  show ?case
  proof (cases "from_flat_path fl")
    case (Inl e')
    with Cons.prems have "e = e'" by simp
    with Inl show ?thesis unfolding from_flat_path_def by (simp add: unflatten_dict_error)
  next
    case (Inr d)
    with Cons.prems have "from_flat_paths fls = Inl e" by (simp split: sum.splits)
    then show ?thesis by (rule Cons.IH)
  qed
qed

lemma from_flat_paths_conforming:
  "\<forall>fl \<in> set fls. conforming fl \<Longrightarrow>
     \<exists>ss. from_flat_paths fls = Inr ss \<and> length ss = length fls
       \<and> (\<forall>i < length fls. unflatten_dict (fls ! i) = Inr (ss ! i))"
proof (induction fls)
  case Nil
  then show ?case by simp
next
  case (Cons fl fls)
  then obtain ss where ss: "from_flat_paths fls = Inr ss" "length ss = length fls"
    "\<forall>i < length fls. unflatten_dict (fls ! i) = Inr (ss ! i)"
    by auto
  from Cons.prems have "conforming fl" by simp
  then obtain d where d: "unflatten_dict fl = Inr d"
    using unflatten_dict_complete by blast
  have "from_flat_paths (fl # fls) = Inr (d # ss)"
    using d ss(1) by (simp add: from_flat_path_def)
  moreover have "\<forall>i < length (fl # fls). unflatten_dict ((fl # fls) ! i) = Inr ((d # ss) ! i)"
  proof (intro allI impI)
    fix i assume "i < length (fl # fls)"
    then show "unflatten_dict ((fl # fls) ! i) = Inr ((d # ss) ! i)"
      using d ss(3) by (cases i) simp_all
  qed
  ultimately show ?case using ss(2) by (intro exI [of _ "d # ss"]) simp
qed

lemma unflatten_dict_length:
  assumes c: "conforming fl" and d: "unflatten_dict fl = Inr d"
  shows "length (flatten_dict d) = length fl"
proof -
  note dist = conforming_distinct [OF c]
  from unflatten_dict_sound [OF c d] have wf: "wf_dict d" and eq: "set (flatten_dict d) = set fl"
    by simp_all
  have "distinct (flatten_dict d)"
    using flatten_dict_distinct [OF wf] by (simp add: distinct_map)
  moreover have "distinct fl" using dist by (simp add: distinct_map)
  ultimately show ?thesis using eq by (metis distinct_card)
qed

lemma unflatten_dict_empty_iff:
  assumes c: "conforming fl" and d: "unflatten_dict fl = Inr d"
  shows "d = [] \<longleftrightarrow> fl = []"
proof
  assume "d = []"
  with unflatten_dict_sound [OF c d] have "set fl = {}" by simp
  then show "fl = []" by simp
next
  assume "fl = []"
  with d show "d = []" by simp
qed

lemma conforming_bucket: "conforming fl \<Longrightarrow> conforming (bucket fs fl i)"
  unfolding bucket_def by (rule conforming_filter)

lemma split_state_Inr:
  assumes wf: "wf_dict s" and ok: "\<not> wildcard_misplaced fs"
  shows "\<exists>sts. split_state s fs = Inr sts \<and> length sts = Suc (length fs)
    \<and> (\<forall>i \<le> length fs. unflatten_dict (bucket fs (flat_state s) i) = Inr (sts ! i))"
proof -
  let ?fl = "flat_state s"
  let ?ps = "map to_predicate fs"
  have c: "conforming ?fl" unfolding flat_state_def using wf by (rule flatten_dict_conforming)
  have pf: "partition_flat ?ps ?fl = map (bucket fs ?fl) [0 ..< Suc (length fs)]"
    using partition_flat_buckets [OF conforming_distinct [OF c], of ?ps]
    unfolding bucket_def by simp
  have "\<forall>fl \<in> set (partition_flat ?ps ?fl). conforming fl"
    unfolding pf using conforming_bucket [OF c] by auto
  from from_flat_paths_conforming [OF this] obtain ss
    where ss: "from_flat_paths (partition_flat ?ps ?fl) = Inr ss"
      "length ss = length (partition_flat ?ps ?fl)"
      "\<forall>i < length (partition_flat ?ps ?fl).
          unflatten_dict (partition_flat ?ps ?fl ! i) = Inr (ss ! i)"
    by blast
  have len: "length (partition_flat ?ps ?fl) = Suc (length fs)" unfolding pf by simp
  have "\<forall>i \<le> length fs. unflatten_dict (bucket fs ?fl i) = Inr (ss ! i)"
  proof (intro allI impI)
    fix i assume i: "i \<le> length fs"
    then have i': "i < Suc (length fs)" by simp
    then have b: "partition_flat ?ps ?fl ! i = bucket fs ?fl i"
      unfolding pf by (simp only: nth_map_upt) simp
    from ss(3) len i' have "unflatten_dict (partition_flat ?ps ?fl ! i) = Inr (ss ! i)"
      by simp
    then show "unflatten_dict (bucket fs ?fl i) = Inr (ss ! i)" by (simp only: b)
  qed
  moreover have "split_state s fs = Inr ss"
    using ok ss(1) unfolding split_state_def by simp
  ultimately show ?thesis using ss(2) len by auto
qed

lemma split_state_misplaced:
  "wildcard_misplaced fs \<Longrightarrow> split_state s fs = Inl OrderingError"
  by (simp add: split_state_def)

lemma split_state_error:
  "split_state s fs = Inl e \<Longrightarrow>
     (e = OrderingError \<and> wildcard_misplaced fs) \<or> (e = UnflattenError \<and> \<not> wildcard_misplaced fs)"
  unfolding split_state_def using from_flat_paths_error by (auto split: if_splits)

lemma bucket_mem_lt:
  assumes "i < length fs"
  shows "(p, v) \<in> set (bucket fs fl i) \<longleftrightarrow>
    (p, v) \<in> set fl \<and> to_predicate (fs ! i) p v \<and> (\<forall>j < i. \<not> to_predicate (fs ! j) p v)"
proof -
  have i: "i < length (map to_predicate fs)" using assms by simp
  have "first_match (map to_predicate fs) p v = i \<longleftrightarrow>
      to_predicate (fs ! i) p v \<and> (\<forall>j < i. \<not> to_predicate (fs ! j) p v)"
    using first_match_lt_iff [OF i, of p v] assms by auto
  then show ?thesis unfolding bucket_def by simp
qed

lemma bucket_mem_rest:
  "(p, v) \<in> set (bucket fs fl (length fs)) \<longleftrightarrow>
    (p, v) \<in> set fl \<and> (\<forall>j < length fs. \<not> to_predicate (fs ! j) p v)"
proof -
  have "first_match (map to_predicate fs) p v = length fs \<longleftrightarrow>
      (\<forall>j < length fs. \<not> to_predicate (fs ! j) p v)"
    using first_match_none_iff [of "map to_predicate fs" p v] by auto
  then show ?thesis unfolding bucket_def by simp
qed

lemma to_predicate_wildcard: "in_ellipsis_true f \<Longrightarrow> to_predicate f p v"
  by (cases f) simp_all

lemma bucket_wildcard_last:
  assumes "fs \<noteq> []" and "in_ellipsis_true (last fs)"
  shows "bucket fs fl (length fs) = []"
proof (cases "bucket fs fl (length fs)")
  case Nil
  then show ?thesis .
next
  case (Cons x xs)
  obtain p v where x: "x = (p, v)" by (cases x)
  have "(p, v) \<in> set (bucket fs fl (length fs))" unfolding Cons x by simp
  then have no: "\<forall>j < length fs. \<not> to_predicate (fs ! j) p v"
    by (simp add: bucket_mem_rest)
  have "length fs - 1 < length fs" using assms(1) by simp
  with no have "\<not> to_predicate (fs ! (length fs - 1)) p v" by blast
  moreover have "fs ! (length fs - 1) = last fs" using assms(1) by (simp add: last_conv_nth)
  ultimately have False using to_predicate_wildcard [OF assms(2)] by simp
  then show ?thesis ..
qed

lemma sum_list_indicator:
  "k < m \<Longrightarrow> sum_list (map (\<lambda>i. if k = i then 1 else 0) [0 ..< m]) = (1::nat)"
proof (induction m)
  case 0
  then show ?case by simp
next
  case (Suc m)
  show ?case
  proof (cases "k = m")
    case True
    have "sum_list (map (\<lambda>i. if k = i then 1 else 0) [0 ..< m]) = (0::nat)"
      using True by simp
    with True show ?thesis by simp
  next
    case False
    with Suc.prems have "k < m" by simp
    from Suc.IH [OF this] False show ?thesis by simp
  qed
qed

lemma sum_length_filter_index:
  assumes "\<And>x. f x < m"
  shows "sum_list (map (\<lambda>i. length (filter (\<lambda>x. f x = i) xs)) [0 ..< m]) = length xs"
proof (induction xs)
  case Nil
  then show ?case by simp
next
  case (Cons x xs)
  have "sum_list (map (\<lambda>i. length (filter (\<lambda>x. f x = i) (x # xs))) [0 ..< m])
      = sum_list (map (\<lambda>i. (if f x = i then 1 else 0) + length (filter (\<lambda>x. f x = i) xs)) [0 ..< m])"
    by (intro arg_cong [of _ _ sum_list] map_cong) simp_all
  also have "\<dots> = sum_list (map (\<lambda>i. if f x = i then 1 else 0) [0 ..< m])
      + sum_list (map (\<lambda>i. length (filter (\<lambda>x. f x = i) xs)) [0 ..< m])"
    by (rule sum_list_addf)
  also have "\<dots> = 1 + length xs"
    using sum_list_indicator [OF assms [of x]] Cons.IH by simp
  finally show ?case by simp
qed

lemma sum_length_buckets:
  "sum_list (map (\<lambda>i. length (bucket fs fl i)) [0 ..< Suc (length fs)]) = length fl"
proof -
  have lt: "\<And>x. (case x of (p, v) \<Rightarrow> first_match (map to_predicate fs) p v) < Suc (length fs)"
  proof -
    fix x :: "'a list \<times> 'b"
    obtain p v where x: "x = (p, v)" by (cases x)
    show "(case x of (p, v) \<Rightarrow> first_match (map to_predicate fs) p v) < Suc (length fs)"
      using first_match_le [of "map to_predicate fs" p v] unfolding x by simp
  qed
  have "\<And>i. bucket fs fl i
      = filter (\<lambda>x. (case x of (p, v) \<Rightarrow> first_match (map to_predicate fs) p v) = i) fl"
    unfolding bucket_def by (intro filter_cong) auto
  then show ?thesis using sum_length_filter_index [OF lt, where xs = fl] by simp
qed

lemma bucket_paths_disjoint:
  assumes dist: "distinct (map fst fl)" and ne: "i \<noteq> j"
  shows "fst ` set (bucket fs fl i) \<inter> fst ` set (bucket fs fl j) = {}"
proof (rule ccontr)
  assume "fst ` set (bucket fs fl i) \<inter> fst ` set (bucket fs fl j) \<noteq> {}"
  then obtain p where "p \<in> fst ` set (bucket fs fl i)" "p \<in> fst ` set (bucket fs fl j)"
    by blast
  then obtain v w where v: "(p, v) \<in> set (bucket fs fl i)" and w: "(p, w) \<in> set (bucket fs fl j)"
    by force
  then have "(p, v) \<in> set fl" "(p, w) \<in> set fl" unfolding bucket_def by simp_all
  with dist have "v = w" by (rule eq_key_imp_eq_value)
  with v w have "first_match (map to_predicate fs) p v = i"
    "first_match (map to_predicate fs) p v = j"
    unfolding bucket_def by simp_all
  with ne show False by simp
qed

lemma wildcard_misplaced_iff:
  "wildcard_misplaced fs \<longleftrightarrow>
     (\<exists>i j. i < j \<and> j < length fs \<and> in_ellipsis_true (fs ! i) \<and> \<not> in_ellipsis_true (fs ! j))"
proof (induction fs)
  case Nil
  then show ?case by simp
next
  case (Cons f fs)
  let ?R = "\<lambda>gs. \<exists>i j. i < j \<and> j < length gs \<and> in_ellipsis_true (gs ! i)
      \<and> \<not> in_ellipsis_true (gs ! j)"
  have here: "(fs \<noteq> [] \<and> \<not> list_all in_ellipsis_true fs)
      \<longleftrightarrow> (\<exists>j < length fs. \<not> in_ellipsis_true (fs ! j))"
    by (auto simp: list_all_length)
  have split: "?R (f # fs) \<longleftrightarrow>
      (in_ellipsis_true f \<and> (\<exists>j < length fs. \<not> in_ellipsis_true (fs ! j))) \<or> ?R fs"
  proof
    assume "?R (f # fs)"
    then obtain i j where ij: "i < j" "j < length (f # fs)" "in_ellipsis_true ((f # fs) ! i)"
      "\<not> in_ellipsis_true ((f # fs) ! j)"
      by blast
    from ij(1) obtain j' where j: "j = Suc j'" by (cases j) simp_all
    show "(in_ellipsis_true f \<and> (\<exists>j < length fs. \<not> in_ellipsis_true (fs ! j))) \<or> ?R fs"
    proof (cases i)
      case 0
      with ij j have "in_ellipsis_true f" "j' < length fs" "\<not> in_ellipsis_true (fs ! j')"
        by simp_all
      then show ?thesis by blast
    next
      case (Suc i')
      with ij j have "i' < j'" "j' < length fs" "in_ellipsis_true (fs ! i')"
        "\<not> in_ellipsis_true (fs ! j')"
        by simp_all
      then show ?thesis by blast
    qed
  next
    assume "(in_ellipsis_true f \<and> (\<exists>j < length fs. \<not> in_ellipsis_true (fs ! j))) \<or> ?R fs"
    then show "?R (f # fs)"
    proof
      assume "in_ellipsis_true f \<and> (\<exists>j < length fs. \<not> in_ellipsis_true (fs ! j))"
      then obtain j where "in_ellipsis_true f" "j < length fs" "\<not> in_ellipsis_true (fs ! j)"
        by blast
      then have "0 < Suc j \<and> Suc j < length (f # fs) \<and> in_ellipsis_true ((f # fs) ! 0)
          \<and> \<not> in_ellipsis_true ((f # fs) ! Suc j)"
        by simp
      then show ?thesis by blast
    next
      assume "?R fs"
      then obtain i j where "i < j" "j < length fs" "in_ellipsis_true (fs ! i)"
        "\<not> in_ellipsis_true (fs ! j)"
        by blast
      then have "Suc i < Suc j \<and> Suc j < length (f # fs) \<and> in_ellipsis_true ((f # fs) ! Suc i)
          \<and> \<not> in_ellipsis_true ((f # fs) ! Suc j)"
        by simp
      then show ?thesis by blast
    qed
  qed
  have "wildcard_misplaced (f # fs) \<longleftrightarrow>
      (in_ellipsis_true f \<and> fs \<noteq> [] \<and> \<not> list_all in_ellipsis_true fs) \<or> wildcard_misplaced fs"
    by auto
  then show ?case using here split Cons.IH by simp
qed

lemma State_split_unfold:
  assumes "split_state s (f # fs) = Inr all" and "length all = Suc (Suc (length fs))"
  shows "State_split s f fs =
    (if last all \<noteq> [] then Inl (NonExhaustiveError (last all))
     else if fs = [] then Inr (Single (hd all)) else Inr (Tuple (butlast all)))"
proof -
  from assms(2) have ne: "all \<noteq> []" by auto
  have len: "length (butlast all) = Suc (length fs)" using assms(2) by simp
  have hd: "hd (butlast all) = hd all"
    using assms(2) by (cases all) (auto split: if_splits)
  show ?thesis
    unfolding State_split_def using assms(1) ne len hd by (simp add: Let_def)
qed

lemma State_filter_unfold:
  assumes "split_state s (f # fs) = Inr all" and "length all = Suc (Suc (length fs))"
  shows "State_filter s f fs =
    (if fs = [] then Inr (Single (hd all)) else Inr (Tuple (butlast all)))"
proof -
  from assms(2) have ne: "all \<noteq> []" by auto
  have len: "length (butlast all) = Suc (length fs)" using assms(2) by simp
  have hd: "hd (butlast all) = hd all"
    using assms(2) by (cases all) (auto split: if_splits)
  show ?thesis
    unfolding State_filter_def using assms(1) ne len hd by (simp add: Let_def)
qed

lemma State_split_misplaced:
  "wildcard_misplaced (f # fs) \<Longrightarrow> State_split s f fs = Inl OrderingError"
  unfolding State_split_def by (simp only: split_state_misplaced sum.case)

lemma State_filter_misplaced:
  "wildcard_misplaced (f # fs) \<Longrightarrow> State_filter s f fs = Inl OrderingError"
  unfolding State_filter_def by (simp only: split_state_misplaced sum.case)

lemma split_state_buckets:
  assumes wf: "wf_dict s" and ok: "\<not> wildcard_misplaced fs"
  obtains sts rest where "split_state s fs = Inr (sts @ [rest])" "length sts = length fs"
    "\<forall>i < length fs. unflatten_dict (bucket fs (flat_state s) i) = Inr (sts ! i)"
    "unflatten_dict (bucket fs (flat_state s) (length fs)) = Inr rest"
proof -
  from split_state_Inr [OF wf ok] obtain all where all: "split_state s fs = Inr all"
    "length all = Suc (length fs)"
    "\<forall>i \<le> length fs. unflatten_dict (bucket fs (flat_state s) i) = Inr (all ! i)"
    by blast
  from all(2) have ne: "all \<noteq> []" by auto
  then have app: "all = butlast all @ [last all]" by simp
  have 1: "split_state s fs = Inr (butlast all @ [last all])" using all(1) app by simp
  have 2: "length (butlast all) = length fs" using all(2) by simp
  have 3: "\<forall>i < length fs. unflatten_dict (bucket fs (flat_state s) i) = Inr (butlast all ! i)"
  proof (intro allI impI)
    fix i assume i: "i < length fs"
    then have "butlast all ! i = all ! i" using 2 by (simp add: nth_butlast)
    with all(3) i show "unflatten_dict (bucket fs (flat_state s) i) = Inr (butlast all ! i)"
      by simp
  qed
  have "last all = all ! length fs" using ne all(2) by (simp add: last_conv_nth)
  with all(3) have 4: "unflatten_dict (bucket fs (flat_state s) (length fs)) = Inr (last all)"
    by simp
  from 1 2 3 4 show ?thesis by (rule that)
qed

lemma distinct_bucket: "distinct (map fst fl) \<Longrightarrow> distinct (map fst (bucket fs fl i))"
  unfolding bucket_def by (rule distinct_map_filter)

lemma sum_list_nth_cong:
  assumes "length xs = n" and "\<And>i. i < n \<Longrightarrow> f (xs ! i) = g i"
  shows "sum_list (map f xs) = sum_list (map g [0 ..< n])"
proof -
  have "map f xs = map g [0 ..< n]"
    using assms by (intro nth_equalityI) simp_all
  then show ?thesis by simp
qed

lemma last_partition_flat:
  assumes "distinct (map fst fl)"
  shows "last (partition_flat (map to_predicate fs) fl) = bucket fs fl (length fs)"
proof -
  have "partition_flat (map to_predicate fs) fl = map (bucket fs fl) [0 ..< Suc (length fs)]"
    using partition_flat_buckets [OF assms, of "map to_predicate fs"]
    unfolding bucket_def by simp
  then show ?thesis by simp
qed

lemma State_split_error_cases:
  assumes "State_split s f fs = Inl e"
  shows "(e = OrderingError \<and> wildcard_misplaced (f # fs))
    \<or> (e = UnflattenError \<and> \<not> wildcard_misplaced (f # fs))
    \<or> (e = UnpackError \<and> \<not> wildcard_misplaced (f # fs))
    \<or> ((\<exists>r. e = NonExhaustiveError r) \<and> \<not> wildcard_misplaced (f # fs))"
proof (cases "split_state s (f # fs)")
  case (Inl e')
  with assms have "e = e'" unfolding State_split_def by simp
  with split_state_error [OF Inl] show ?thesis by blast
next
  case (Inr all)
  then have "\<not> wildcard_misplaced (f # fs)"
    unfolding split_state_def by (auto split: if_splits)
  moreover from assms Inr have "e = UnpackError \<or> (\<exists>r. e = NonExhaustiveError r)"
    unfolding State_split_def by (auto simp: Let_def split: if_splits)
  ultimately show ?thesis by blast
qed

lemma State_filter_error_cases:
  assumes "State_filter s f fs = Inl e"
  shows "(e = OrderingError \<and> wildcard_misplaced (f # fs))
    \<or> (e = UnflattenError \<and> \<not> wildcard_misplaced (f # fs))
    \<or> (e = UnpackError \<and> \<not> wildcard_misplaced (f # fs))
    \<or> (e = AssertionError \<and> \<not> wildcard_misplaced (f # fs))"
proof (cases "split_state s (f # fs)")
  case (Inl e')
  with assms have "e = e'" unfolding State_filter_def by simp
  with split_state_error [OF Inl] show ?thesis by blast
next
  case (Inr all)
  then have "\<not> wildcard_misplaced (f # fs)"
    unfolding split_state_def by (auto split: if_splits)
  moreover from assms Inr have "e = UnpackError \<or> e = AssertionError"
    unfolding State_filter_def by (auto simp: Let_def split: if_splits)
  ultimately show ?thesis by blast
qed





lemma dict_update_Cons: "dict_update d ((k, v) # e) = dict_update (AList.update k v d) e"
  by (simp add: dict_update_def)

lemma dict_update_Nil: "dict_update d [] = d"
  by (simp add: dict_update_def)


lemma dict_update_distinct:
  "distinct (map fst d) \<Longrightarrow> distinct (map fst (dict_update d e))"
proof (induction e arbitrary: d)
  case Nil
  then show ?case by (simp add: dict_update_Nil)
next
  case (Cons x e)
  obtain k v where x: "x = (k, v)" by (cases x)
  have "distinct (map fst (AList.update k v d))" using Cons.prems by (rule distinct_update)
  then show ?case unfolding x dict_update_Cons by (rule Cons.IH)
qed



lemma foldl_dict_update_distinct:
  "distinct (map fst acc) \<Longrightarrow> distinct (map fst (foldl dict_update acc fls))"
  by (induction fls arbitrary: acc) (simp_all add: dict_update_distinct)



lemma State_sub_nonempty:
  "b \<noteq> [] \<Longrightarrow>
     State_sub a b = from_flat_path (filter (\<lambda>(p, v). p \<notin> fst ` set (flat_state b)) (flat_state a))"
  by (simp add: State_sub_def Let_def)

section \<open>The claims\<close>

text \<open>
  C1 (amended). For every well-formed state \<open>c\<close> none of whose sub-containers is empty,
  unflattening the flattened state gives \<open>c\<close> back: \<open>State.from_flat_path\<close> applied
  to \<open>c.flat_state()\<close> returns a state with the keys of \<open>c\<close> at every level, in the
  order of \<open>c\<close>, and the leaves of \<open>c\<close> at every path. In a flattened state no path is
  a strict prefix of another (\<open>flatten_dict_conforming\<close>), so that condition of the
  claim is no restriction.
\<close>

theorem C1_roundtrip_nonempty:
  assumes "wf_dict c" and "\<forall>t \<in> snd ` set c. no_empty_dict t"
  shows "from_flat_path (flat_state c) = Inr c"
  using assms unfolding from_flat_path_def flat_state_def by (rule unflatten_flatten)

text \<open>The theorem at the state \<open>{"a": {"b": 1}, "c": 2}\<close>.\<close>

theorem C1_roundtrip_nonempty_witness:
  "wf_dict [(''a'', Dict [(''b'', Leaf (1::nat))]), (''c'', Leaf 2)]
   \<and> from_flat_path (flat_state [(''a'', Dict [(''b'', Leaf (1::nat))]), (''c'', Leaf 2)])
       = Inr [(''a'', Dict [(''b'', Leaf 1)]), (''c'', Leaf 2)]"
proof -
  have wf: "wf_dict [(''a'', Dict [(''b'', Leaf (1::nat))]), (''c'', Leaf 2)]"
    by (simp add: wf_dict_def)
  have ne: "\<forall>t \<in> snd ` set [(''a'', Dict [(''b'', Leaf (1::nat))]), (''c'', Leaf 2)].
      no_empty_dict t"
    by simp
  from C1_roundtrip_nonempty [OF wf ne] wf show ?thesis by simp
qed

text \<open>
  The claim as stated fails at \<open>{"a": {}}\<close>: the state is well formed, its flat state
  is empty (an empty sub-container has no leaf and so no entry), and unflattening gives
  the empty state, which has lost the key \<open>a\<close>.
\<close>

theorem C1_roundtrip_counterexample:
  "wf_dict [(''a'', Dict [] :: (string, nat) tree)]
   \<and> conforming (flat_state [(''a'', Dict [] :: (string, nat) tree)])
   \<and> from_flat_path (flat_state [(''a'', Dict [] :: (string, nat) tree)]) = Inr []
   \<and> from_flat_path (flat_state [(''a'', Dict [] :: (string, nat) tree)])
       \<noteq> Inr [(''a'', Dict [])]"
  by (simp add: wf_dict_def flat_state_def from_flat_path_def unflatten_dict_def conforming_def)

text \<open>
  C9 (amended). A conforming flat state (paths distinct, none empty, none a strict prefix
  of another) is accepted by \<open>State.from_flat_path\<close>, and the state built groups the
  paths on their first key: its keys are the first keys of the paths, a key holds a leaf
  exactly when the one-key path is an entry, and a key that holds a sub-container holds
  exactly the entries under that key; flattening the result gives the entries back.
  A path that is a strict prefix of another is not looked for: the entries are stored one
  after another, and a one-key path stored last takes the place of whatever the entries
  before it have put under that key, a sub-container included.
\<close>

theorem C9_unflatten_groups_conforming:
  "(conforming fl \<longrightarrow>
        (\<exists>d. from_flat_path fl = Inr d \<and> wf_dict d
           \<and> set (flat_state d) = set fl
           \<and> fst ` set d = {k. \<exists>p v. (k # p, v) \<in> set fl}
           \<and> (\<forall>k v. map_of d k = Some (Leaf v) \<longleftrightarrow> ([k], v) \<in> set fl)
           \<and> (\<forall>k sub. map_of d k = Some (Dict sub)
                 \<longrightarrow> wf_dict sub \<and> set (flat_state sub) = set (under_key k fl))))
   \<and> from_flat_path (fl @ [([k], v)])
       = (case from_flat_path fl of Inl e \<Rightarrow> Inl e
          | Inr d \<Rightarrow> Inr (AList.update k (Leaf v) d))"
proof (intro conjI impI)
  assume c: "conforming fl"
  from unflatten_dict_conforming [OF c] obtain d where d: "unflatten_dict fl = Inr d"
    and wf: "wf_dict d"
    and eq: "set (flatten_dict d) = set fl"
    and keys: "fst ` set d = {k. \<exists>p v. (k # p, v) \<in> set fl}"
    by blast
  have leaves: "\<forall>k v. map_of d k = Some (Leaf v) \<longleftrightarrow> ([k], v) \<in> set fl"
  proof (intro allI)
    fix k v
    have "([k], v) \<in> set (flatten_dict d) \<longleftrightarrow> lookup_path (Dict d) [k] = Some (Leaf v)"
      using wf by (rule flatten_dict_lookup)
    also have "\<dots> \<longleftrightarrow> map_of d k = Some (Leaf v)"
      by (simp split: option.splits)
    finally show "map_of d k = Some (Leaf v) \<longleftrightarrow> ([k], v) \<in> set fl"
      using eq by simp
  qed
  have groups: "\<forall>k sub. map_of d k = Some (Dict sub)
      \<longrightarrow> wf_dict sub \<and> set (flat_state sub) = set (under_key k fl)"
  proof (intro allI impI)
    fix k sub
    assume m: "map_of d k = Some (Dict sub)"
    from wf_dict_map_of [OF wf m] have wfs: "wf_dict sub" by (simp add: wf_dict_def)
    have "set (flatten_dict sub) = set (under_key k (flatten_dict d))"
      using wf m by (rule flatten_dict_sub)
    also have "\<dots> = set (under_key k fl)"
      by (simp only: set_under_key eq)
    finally have "set (flat_state sub) = set (under_key k fl)"
      unfolding flat_state_def .
    with wfs show "wf_dict sub \<and> set (flat_state sub) = set (under_key k fl)" by simp
  qed
  show "\<exists>d. from_flat_path fl = Inr d \<and> wf_dict d
           \<and> set (flat_state d) = set fl
           \<and> fst ` set d = {k. \<exists>p v. (k # p, v) \<in> set fl}
           \<and> (\<forall>k v. map_of d k = Some (Leaf v) \<longleftrightarrow> ([k], v) \<in> set fl)
           \<and> (\<forall>k sub. map_of d k = Some (Dict sub)
                 \<longrightarrow> wf_dict sub \<and> set (flat_state sub) = set (under_key k fl))"
  proof (intro exI [of _ d] conjI)
    show "from_flat_path fl = Inr d" unfolding from_flat_path_def by (rule d)
    show "wf_dict d" by (rule wf)
    show "set (flat_state d) = set fl" unfolding flat_state_def by (rule eq)
    show "fst ` set d = {k. \<exists>p v. (k # p, v) \<in> set fl}" by (rule keys)
    show "\<forall>k v. map_of d k = Some (Leaf v) \<longleftrightarrow> ([k], v) \<in> set fl" by (rule leaves)
    show "\<forall>k sub. map_of d k = Some (Dict sub)
        \<longrightarrow> wf_dict sub \<and> set (flat_state sub) = set (under_key k fl)" by (rule groups)
  qed
next
  show "from_flat_path (fl @ [([k], v)])
       = (case from_flat_path fl of Inl e \<Rightarrow> Inl e
          | Inr d \<Rightarrow> Inr (AList.update k (Leaf v) d))"
    unfolding from_flat_path_def by (rule unflatten_dict_snoc_key)
qed

text \<open>
  The theorem at a conforming flat state, which is grouped on the keys \<open>a\<close> and \<open>c\<close>,
  and at \<open>{("a","b"): 2}\<close> followed by the entry \<open>("a",): 1\<close>, which takes the place
  of the sub-container under \<open>a\<close>.
\<close>

theorem C9_unflatten_groups_conforming_witness:
  "conforming [([''a'', ''b''], 2::nat), ([''c''], 1), ([''a'', ''d''], 5)]
   \<and> from_flat_path [([''a'', ''b''], 2::nat), ([''c''], 1), ([''a'', ''d''], 5)]
       = Inr [(''a'', Dict [(''b'', Leaf 2), (''d'', Leaf 5)]), (''c'', Leaf 1)]
   \<and> set (flat_state [(''a'', Dict [(''b'', Leaf (2::nat)), (''d'', Leaf 5)]), (''c'', Leaf 1)])
       = set [([''a'', ''b''], 2::nat), ([''c''], 1), ([''a'', ''d''], 5)]
   \<and> from_flat_path ([([''a'', ''b''], 2::nat)] @ [([''a''], 1)]) = Inr [(''a'', Leaf 1)]"
proof -
  let ?fl = "[([''a'', ''b''], 2::nat), ([''c''], 1), ([''a'', ''d''], 5)]"
  let ?d = "[(''a'', Dict [(''b'', Leaf (2::nat)), (''d'', Leaf 5)]), (''c'', Leaf 1)]"
  have c: "conforming ?fl"
    by (simp add: conforming_def)
  have e: "from_flat_path ?fl = Inr ?d"
    by (simp add: from_flat_path_def unflatten_dict_def)
  have e1: "from_flat_path [([''a'', ''b''], 2::nat)] = Inr [(''a'', Dict [(''b'', Leaf 2)])]"
    by (simp add: from_flat_path_def unflatten_dict_def)
  note t1 = conjunct1 [OF C9_unflatten_groups_conforming [of ?fl]]
  from t1 c obtain d where d: "from_flat_path ?fl = Inr d" and s: "set (flat_state d) = set ?fl"
    by blast
  from d e have "d = ?d" by simp
  with s have s': "set (flat_state ?d) = set ?fl" by simp
  note t2 = conjunct2 [OF C9_unflatten_groups_conforming
      [of "[([''a'', ''b''], 2::nat)]" "''a''" "1::nat"]]
  have o: "from_flat_path ([([''a'', ''b''], 2::nat)] @ [([''a''], 1)]) = Inr [(''a'', Leaf 1)]"
    unfolding t2 e1 by simp
  show ?thesis by (intro conjI c e s' o)
qed

text \<open>
  The claim as stated fails at \<open>{("a","b"): 2, ("a",): 1}\<close>: the path \<open>("a",)\<close> is a strict
  prefix of the path \<open>("a","b")\<close>, and \<open>State.from_flat_path\<close> returns the state
  \<open>{"a": 1}\<close>, in which the entry \<open>("a","b"): 2\<close> is lost.
\<close>

theorem C9_prefix_not_rejected_counterexample:
  "strict_prefix [''a''] [''a'', ''b'']
   \<and> from_flat_path [([''a'', ''b''], 2::nat), ([''a''], 1)] = Inr [(''a'', Leaf 1)]
   \<and> flat_state [(''a'', Leaf (1::nat))] = [([''a''], 1)]"
  by (simp add: from_flat_path_def unflatten_dict_def flat_state_def)

text \<open>
  C8 (amended). For every well-formed state, \<open>flat_state\<close> holds exactly one entry for
  every leaf and none for any other node: an entry \<open>(p, v)\<close> is in the flat state exactly
  when the path \<open>p\<close> leads from the root to the leaf \<open>v\<close>, no path occurs twice, and the
  number of entries is the number of leaves. The entries stand in the order of the
  depth-first traversal that visits the keys of every container in the order in which
  the container iterates over them, which is the order of insertion and not the order
  of the keys: of any two entries, the earlier one is reached first.
\<close>

theorem C8_flat_state_one_entry_per_leaf:
  assumes "wf_dict s"
  shows "(\<forall>p v. (p, v) \<in> set (flat_state s) \<longleftrightarrow> lookup_path (Dict s) p = Some (Leaf v))
    \<and> distinct (map fst (flat_state s))
    \<and> length (flat_state s) = count_leaves (Dict s)
    \<and> sorted_wrt (dfs_before (Dict s)) (map fst (flat_state s))"
  unfolding flat_state_def
  using flatten_dict_lookup [OF assms] flatten_dict_distinct [OF assms]
    length_flatten_dict [of s] flatten_dict_dfs_order [OF assms]
  by simp

text \<open>
  The theorem at \<open>{"c": 2, "a": {"b": 1}}\<close>, whose flat state starts with the path of
  the key \<open>c\<close>, the first key of the state.
\<close>

theorem C8_flat_state_one_entry_per_leaf_witness:
  "wf_dict [(''c'', Leaf (2::nat)), (''a'', Dict [(''b'', Leaf 1)])]
   \<and> flat_state [(''c'', Leaf (2::nat)), (''a'', Dict [(''b'', Leaf 1)])]
       = [([''c''], 2), ([''a'', ''b''], 1)]
   \<and> length (flat_state [(''c'', Leaf (2::nat)), (''a'', Dict [(''b'', Leaf 1)])])
       = count_leaves (Dict [(''c'', Leaf (2::nat)), (''a'', Dict [(''b'', Leaf 1)])])
   \<and> sorted_wrt (dfs_before (Dict [(''c'', Leaf (2::nat)), (''a'', Dict [(''b'', Leaf 1)])]))
        (map fst (flat_state [(''c'', Leaf (2::nat)), (''a'', Dict [(''b'', Leaf 1)])]))"
proof -
  have wf: "wf_dict [(''c'', Leaf (2::nat)), (''a'', Dict [(''b'', Leaf 1)])]"
    by (simp add: wf_dict_def)
  have fl: "flat_state [(''c'', Leaf (2::nat)), (''a'', Dict [(''b'', Leaf 1)])]
       = [([''c''], 2), ([''a'', ''b''], 1)]"
    by (simp add: flat_state_def)
  from C8_flat_state_one_entry_per_leaf [OF wf] wf fl show ?thesis by blast
qed

text \<open>
  The claim as stated fails at \<open>{2: 20, 1: {0: 10}}\<close>: in the order of the keys the
  entry under the key \<open>1\<close> comes first, and the flat state starts with the entry of the
  key \<open>2\<close>, the first key of the state.
\<close>

theorem C8_key_order_counterexample:
  "wf_dict [(2::nat, Leaf (20::nat)), (1, Dict [(0, Leaf 10)])]
   \<and> flat_state [(2::nat, Leaf (20::nat)), (1, Dict [(0, Leaf 10)])]
       = [([2], 20), ([1, 0], 10)]
   \<and> \<not> sorted (map (\<lambda>x. hd (fst x))
        (flat_state [(2::nat, Leaf (20::nat)), (1, Dict [(0, Leaf 10)])]))"
  by (simp add: wf_dict_def flat_state_def)

text \<open>
  C2. For every well-formed state and every non-empty filter list, either the validation
  fails with the ordering error, or \<open>_split_state\<close> returns one state for every filter
  and a last one, the remainder. An entry of the flat state is in the state of filter
  \<open>i\<close> exactly when the predicate of filter \<open>i\<close> holds for it and the predicate of no
  earlier filter does; it is in the remainder exactly when no predicate holds for it.
  The states of different filters share no path. When the last filter is a wildcard, the
  remainder is empty, \<open>split\<close> returns the states of the filters, and their leaf counts
  add up to the leaf count of the state.
\<close>

theorem C2_partition_first_match:
  assumes wf: "wf_dict s" and ne: "fs \<noteq> []"
  shows "(wildcard_misplaced fs \<and> State_split s (hd fs) (tl fs) = Inl OrderingError)
    \<or> (\<exists>sts rest.
          split_state s fs = Inr (sts @ [rest]) \<and> length sts = length fs
        \<and> (\<forall>i < length fs. \<forall>p v. (p, v) \<in> set (flat_state (sts ! i)) \<longleftrightarrow>
              (p, v) \<in> set (flat_state s) \<and> to_predicate (fs ! i) p v
              \<and> (\<forall>j < i. \<not> to_predicate (fs ! j) p v))
        \<and> (\<forall>p v. (p, v) \<in> set (flat_state rest) \<longleftrightarrow>
              (p, v) \<in> set (flat_state s) \<and> (\<forall>j < length fs. \<not> to_predicate (fs ! j) p v))
        \<and> (\<forall>i < length fs. \<forall>j < length fs. i \<noteq> j \<longrightarrow>
              fst ` set (flat_state (sts ! i)) \<inter> fst ` set (flat_state (sts ! j)) = {})
        \<and> (in_ellipsis_true (last fs) \<longrightarrow>
              rest = []
            \<and> State_split s (hd fs) (tl fs)
                = Inr (if length fs = 1 then Single (hd sts) else Tuple sts)
            \<and> sum_list (map (\<lambda>st. count_leaves (Dict st)) sts) = count_leaves (Dict s)))"
proof (cases "wildcard_misplaced fs")
  case True
  from ne have fs: "fs = hd fs # tl fs" by simp
  from True fs have "wildcard_misplaced (hd fs # tl fs)" by simp
  then have "State_split s (hd fs) (tl fs) = Inl OrderingError"
    by (rule State_split_misplaced)
  with True show ?thesis by blast
next
  case False
  let ?fl = "flat_state s"
  have dist: "distinct (map fst ?fl)"
    unfolding flat_state_def using wf by (rule flatten_dict_distinct)
  have c: "conforming ?fl"
    unfolding flat_state_def using wf by (rule flatten_dict_conforming)
  from split_state_buckets [OF wf False] obtain sts rest
    where sp: "split_state s fs = Inr (sts @ [rest])" and len: "length sts = length fs"
      and un: "\<forall>i < length fs. unflatten_dict (bucket fs ?fl i) = Inr (sts ! i)"
      and unr: "unflatten_dict (bucket fs ?fl (length fs)) = Inr rest"
    by blast
  have sets: "\<And>i. i < length fs \<Longrightarrow> set (flat_state (sts ! i)) = set (bucket fs ?fl i)"
  proof -
    fix i assume "i < length fs"
    with un have "unflatten_dict (bucket fs ?fl i) = Inr (sts ! i)" by simp
    from unflatten_dict_sound [OF conforming_bucket [OF c] this]
    show "set (flat_state (sts ! i)) = set (bucket fs ?fl i)"
      unfolding flat_state_def by simp
  qed
  have mem: "\<forall>i < length fs. \<forall>p v. (p, v) \<in> set (flat_state (sts ! i)) \<longleftrightarrow>
      (p, v) \<in> set ?fl \<and> to_predicate (fs ! i) p v \<and> (\<forall>j < i. \<not> to_predicate (fs ! j) p v)"
  proof (intro allI impI)
    fix i p v assume i: "i < length fs"
    show "(p, v) \<in> set (flat_state (sts ! i)) \<longleftrightarrow>
      (p, v) \<in> set ?fl \<and> to_predicate (fs ! i) p v \<and> (\<forall>j < i. \<not> to_predicate (fs ! j) p v)"
      unfolding sets [OF i] using i by (rule bucket_mem_lt)
  qed
  have "set (flat_state rest) = set (bucket fs ?fl (length fs))"
    using unflatten_dict_sound [OF conforming_bucket [OF c] unr]
    unfolding flat_state_def by simp
  then have memr: "\<forall>p v. (p, v) \<in> set (flat_state rest) \<longleftrightarrow>
      (p, v) \<in> set ?fl \<and> (\<forall>j < length fs. \<not> to_predicate (fs ! j) p v)"
    by (simp only: bucket_mem_rest) simp
  have disj: "\<forall>i < length fs. \<forall>j < length fs. i \<noteq> j \<longrightarrow>
      fst ` set (flat_state (sts ! i)) \<inter> fst ` set (flat_state (sts ! j)) = {}"
  proof (intro allI impI)
    fix i j assume "i < length fs" "j < length fs" "i \<noteq> j"
    then show "fst ` set (flat_state (sts ! i)) \<inter> fst ` set (flat_state (sts ! j)) = {}"
      using sets bucket_paths_disjoint [OF dist, of i j fs] by simp
  qed
  have wild: "in_ellipsis_true (last fs) \<longrightarrow>
      rest = []
      \<and> State_split s (hd fs) (tl fs) = Inr (if length fs = 1 then Single (hd sts) else Tuple sts)
      \<and> sum_list (map (\<lambda>st. count_leaves (Dict st)) sts) = count_leaves (Dict s)"
  proof
    assume w: "in_ellipsis_true (last fs)"
    have b0: "bucket fs ?fl (length fs) = []" using ne w by (rule bucket_wildcard_last)
    with unr have rest: "rest = []" by simp
    from ne have fs: "fs = hd fs # tl fs" by simp
    have sp': "split_state s (hd fs # tl fs) = Inr (sts @ [rest])" using sp fs by simp
    have len': "length (sts @ [rest]) = Suc (Suc (length (tl fs)))" using len ne by simp
    have stsne: "sts \<noteq> []" using len ne by auto
    have "State_split s (hd fs) (tl fs)
        = (if tl fs = [] then Inr (Single (hd sts)) else Inr (Tuple sts))"
      using State_split_unfold [OF sp' len'] rest stsne by simp
    moreover have "tl fs = [] \<longleftrightarrow> length fs = 1" using ne by (cases fs) simp_all
    ultimately have ret: "State_split s (hd fs) (tl fs)
        = Inr (if length fs = 1 then Single (hd sts) else Tuple sts)"
      by simp
    have cnt: "\<And>i. i < length fs \<Longrightarrow> count_leaves (Dict (sts ! i)) = length (bucket fs ?fl i)"
    proof -
      fix i assume "i < length fs"
      with un have "unflatten_dict (bucket fs ?fl i) = Inr (sts ! i)" by simp
      from unflatten_dict_length [OF conforming_bucket [OF c] this]
      show "count_leaves (Dict (sts ! i)) = length (bucket fs ?fl i)"
        by (simp add: length_flatten_dict)
    qed
    have "sum_list (map (\<lambda>st. count_leaves (Dict st)) sts)
        = sum_list (map (\<lambda>i. length (bucket fs ?fl i)) [0 ..< length fs])"
      using len cnt by (rule sum_list_nth_cong)
    also have "\<dots> = sum_list (map (\<lambda>i. length (bucket fs ?fl i)) [0 ..< Suc (length fs)])"
      using b0 by simp
    also have "\<dots> = length ?fl" by (rule sum_length_buckets)
    also have "\<dots> = count_leaves (Dict s)"
      unfolding flat_state_def by (rule length_flatten_dict)
    finally have "sum_list (map (\<lambda>st. count_leaves (Dict st)) sts) = count_leaves (Dict s)" .
    with rest ret show "rest = []
      \<and> State_split s (hd fs) (tl fs) = Inr (if length fs = 1 then Single (hd sts) else Tuple sts)
      \<and> sum_list (map (\<lambda>st. count_leaves (Dict st)) sts) = count_leaves (Dict s)"
      by blast
  qed
  have "\<exists>sts rest.
          split_state s fs = Inr (sts @ [rest]) \<and> length sts = length fs
        \<and> (\<forall>i < length fs. \<forall>p v. (p, v) \<in> set (flat_state (sts ! i)) \<longleftrightarrow>
              (p, v) \<in> set (flat_state s) \<and> to_predicate (fs ! i) p v
              \<and> (\<forall>j < i. \<not> to_predicate (fs ! j) p v))
        \<and> (\<forall>p v. (p, v) \<in> set (flat_state rest) \<longleftrightarrow>
              (p, v) \<in> set (flat_state s) \<and> (\<forall>j < length fs. \<not> to_predicate (fs ! j) p v))
        \<and> (\<forall>i < length fs. \<forall>j < length fs. i \<noteq> j \<longrightarrow>
              fst ` set (flat_state (sts ! i)) \<inter> fst ` set (flat_state (sts ! j)) = {})
        \<and> (in_ellipsis_true (last fs) \<longrightarrow>
              rest = []
            \<and> State_split s (hd fs) (tl fs)
                = Inr (if length fs = 1 then Single (hd sts) else Tuple sts)
            \<and> sum_list (map (\<lambda>st. count_leaves (Dict st)) sts) = count_leaves (Dict s))"
    by (intro exI [of _ sts] exI [of _ rest] conjI sp len mem memr disj wild)
  then show ?thesis by (rule disjI2)
qed

text \<open>
  The theorem at the state \<open>{"a": {"b": 1}, "c": 2}\<close> and the filters "the path starts
  with \<open>a\<close>" and \<open>...\<close>.
\<close>

theorem C2_partition_first_match_witness:
  "wf_dict [(''a'', Dict [(''b'', Leaf (1::nat))]), (''c'', Leaf 2)]
   \<and> \<not> wildcard_misplaced [Predicate (\<lambda>p (v::nat). hd p = ''a''), Ellipsis]
   \<and> in_ellipsis_true (last [Predicate (\<lambda>p (v::nat). hd p = ''a''), Ellipsis])
   \<and> (\<exists>sts. split_state [(''a'', Dict [(''b'', Leaf (1::nat))]), (''c'', Leaf 2)]
            [Predicate (\<lambda>p v. hd p = ''a''), Ellipsis] = Inr (sts @ [[]])
          \<and> State_split [(''a'', Dict [(''b'', Leaf (1::nat))]), (''c'', Leaf 2)]
               (Predicate (\<lambda>p v. hd p = ''a'')) [Ellipsis] = Inr (Tuple sts)
          \<and> sum_list (map (\<lambda>st. count_leaves (Dict st)) sts)
               = count_leaves (Dict [(''a'', Dict [(''b'', Leaf (1::nat))]), (''c'', Leaf 2)]))
   \<and> State_split [(''a'', Dict [(''b'', Leaf (1::nat))]), (''c'', Leaf 2)]
        (Predicate (\<lambda>p v. hd p = ''a'')) [Ellipsis]
       = Inr (Tuple [[(''a'', Dict [(''b'', Leaf 1)])], [(''c'', Leaf 2)]])"
proof -
  let ?s = "[(''a'', Dict [(''b'', Leaf (1::nat))]), (''c'', Leaf 2)]"
  let ?fs = "[Predicate (\<lambda>p (v::nat). hd p = ''a''), Ellipsis]"
  have wf: "wf_dict ?s" by (simp add: wf_dict_def)
  have ne: "?fs \<noteq> []" by simp
  have ok: "\<not> wildcard_misplaced ?fs" by simp
  have w: "in_ellipsis_true (last ?fs)" by simp
  have ex: "\<exists>sts. split_state ?s ?fs = Inr (sts @ [[]])
          \<and> State_split ?s (Predicate (\<lambda>p v. hd p = ''a'')) [Ellipsis] = Inr (Tuple sts)
          \<and> sum_list (map (\<lambda>st. count_leaves (Dict st)) sts) = count_leaves (Dict ?s)"
    using C2_partition_first_match [OF wf ne] ok w by auto
  have val: "State_split ?s (Predicate (\<lambda>p v. hd p = ''a'')) [Ellipsis]
       = Inr (Tuple [[(''a'', Dict [(''b'', Leaf 1)])], [(''c'', Leaf 2)]])"
    by (simp add: State_split_def split_state_def partition_flat_def assign_def flat_state_def
        from_flat_path_def unflatten_dict_def Let_def)
  show ?thesis by (intro conjI wf ok w ex val)
qed

text \<open>
  C3. For every well-formed state and filter list, \<open>split\<close> raises the non-exhaustive
  error exactly when the filters pass the validation and the remainder, the last flat
  state of the partitioning, is not empty; the error carries the remainder and nothing
  else is returned. \<open>filter\<close> never raises that error, for no state and no filters.
  Whenever the filters pass the validation, \<open>filter\<close> returns the states of the
  \<open>N\<close> filters and drops the remainder, empty or not, and \<open>split\<close> returns the same
  when the remainder is empty.
\<close>

theorem C3_split_non_exhaustive:
  assumes wf: "wf_dict s"
  shows "((\<exists>r. State_split s f fs = Inl (NonExhaustiveError r)) \<longleftrightarrow>
        \<not> wildcard_misplaced (f # fs)
        \<and> last (partition_flat (map to_predicate (f # fs)) (flat_state s)) \<noteq> [])
    \<and> (\<forall>r. State_filter s f fs \<noteq> Inl (NonExhaustiveError r))
    \<and> (\<not> wildcard_misplaced (f # fs) \<longrightarrow>
         (\<exists>sts rest. split_state s (f # fs) = Inr (sts @ [rest])
            \<and> length sts = Suc (length fs)
            \<and> from_flat_path (last (partition_flat (map to_predicate (f # fs)) (flat_state s)))
                = Inr rest
            \<and> State_filter s f fs = Inr (if fs = [] then Single (hd sts) else Tuple sts)
            \<and> State_split s f fs =
                (if rest \<noteq> [] then Inl (NonExhaustiveError rest)
                 else Inr (if fs = [] then Single (hd sts) else Tuple sts))))"
proof -
  let ?fl = "flat_state s"
  let ?last = "last (partition_flat (map to_predicate (f # fs)) ?fl)"
  have dist: "distinct (map fst ?fl)"
    unfolding flat_state_def using wf by (rule flatten_dict_distinct)
  have lastb: "?last = bucket (f # fs) ?fl (length (f # fs))"
    using dist by (rule last_partition_flat)
  have "conforming ?fl"
    unfolding flat_state_def using wf by (rule flatten_dict_conforming)
  then have cl: "conforming ?last"
    unfolding lastb by (rule conforming_bucket)
  have ok: "\<not> wildcard_misplaced (f # fs) \<longrightarrow>
         (\<exists>sts rest. split_state s (f # fs) = Inr (sts @ [rest])
            \<and> length sts = Suc (length fs)
            \<and> from_flat_path ?last = Inr rest
            \<and> State_filter s f fs = Inr (if fs = [] then Single (hd sts) else Tuple sts)
            \<and> State_split s f fs =
                (if rest \<noteq> [] then Inl (NonExhaustiveError rest)
                 else Inr (if fs = [] then Single (hd sts) else Tuple sts)))"
  proof
    assume valid: "\<not> wildcard_misplaced (f # fs)"
    from split_state_buckets [OF wf valid] obtain sts rest
      where sp: "split_state s (f # fs) = Inr (sts @ [rest])"
        and len: "length sts = length (f # fs)"
        and unr: "unflatten_dict (bucket (f # fs) ?fl (length (f # fs))) = Inr rest"
      by blast
    have len': "length (sts @ [rest]) = Suc (Suc (length fs))" using len by simp
    have stsne: "sts \<noteq> []" using len by auto
    have 1: "length sts = Suc (length fs)" using len by simp
    have 2: "from_flat_path ?last = Inr rest"
      unfolding from_flat_path_def lastb by (rule unr)
    have 3: "State_filter s f fs = Inr (if fs = [] then Single (hd sts) else Tuple sts)"
      using State_filter_unfold [OF sp len'] stsne by simp
    have 4: "State_split s f fs =
        (if rest \<noteq> [] then Inl (NonExhaustiveError rest)
         else Inr (if fs = [] then Single (hd sts) else Tuple sts))"
      using State_split_unfold [OF sp len'] stsne by simp
    show "\<exists>sts rest. split_state s (f # fs) = Inr (sts @ [rest])
            \<and> length sts = Suc (length fs)
            \<and> from_flat_path ?last = Inr rest
            \<and> State_filter s f fs = Inr (if fs = [] then Single (hd sts) else Tuple sts)
            \<and> State_split s f fs =
                (if rest \<noteq> [] then Inl (NonExhaustiveError rest)
                 else Inr (if fs = [] then Single (hd sts) else Tuple sts))"
      by (intro exI [of _ sts] exI [of _ rest] conjI sp 1 2 3 4)
  qed
  have iff: "(\<exists>r. State_split s f fs = Inl (NonExhaustiveError r)) \<longleftrightarrow>
        \<not> wildcard_misplaced (f # fs) \<and> ?last \<noteq> []"
  proof
    assume "\<exists>r. State_split s f fs = Inl (NonExhaustiveError r)"
    then obtain r where r: "State_split s f fs = Inl (NonExhaustiveError r)" by blast
    from State_split_error_cases [OF r] have valid: "\<not> wildcard_misplaced (f # fs)" by simp
    with ok obtain sts rest where rest: "from_flat_path ?last = Inr rest"
      and res: "State_split s f fs =
        (if rest \<noteq> [] then Inl (NonExhaustiveError rest)
         else Inr (if fs = [] then Single (hd sts) else Tuple sts))"
      by blast
    from r res have "rest \<noteq> []" by (auto split: if_splits)
    with rest have "?last \<noteq> []"
      using unflatten_dict_empty_iff [OF cl, of rest] unfolding from_flat_path_def by simp
    with valid show "\<not> wildcard_misplaced (f # fs) \<and> ?last \<noteq> []" by simp
  next
    assume a: "\<not> wildcard_misplaced (f # fs) \<and> ?last \<noteq> []"
    with ok obtain sts rest where rest: "from_flat_path ?last = Inr rest"
      and res: "State_split s f fs =
        (if rest \<noteq> [] then Inl (NonExhaustiveError rest)
         else Inr (if fs = [] then Single (hd sts) else Tuple sts))"
      by blast
    from a rest have "rest \<noteq> []"
      using unflatten_dict_empty_iff [OF cl, of rest] unfolding from_flat_path_def by simp
    with res show "\<exists>r. State_split s f fs = Inl (NonExhaustiveError r)" by simp
  qed
  have never: "\<forall>r. State_filter s f fs \<noteq> Inl (NonExhaustiveError r)"
  proof (intro allI notI)
    fix r assume "State_filter s f fs = Inl (NonExhaustiveError r)"
    from State_filter_error_cases [OF this] show False by simp
  qed
  from iff never ok show ?thesis by (intro conjI)
qed

text \<open>
  The theorem at the state \<open>{"a": {"b": 1}, "c": 2}\<close> and the one filter "the path
  starts with \<open>a\<close>": \<open>split\<close> raises, \<open>filter\<close> returns the state of the filter.
\<close>

theorem C3_split_non_exhaustive_witness:
  "wf_dict [(''a'', Dict [(''b'', Leaf (1::nat))]), (''c'', Leaf 2)]
   \<and> \<not> wildcard_misplaced [Predicate (\<lambda>p (v::nat). hd p = ''a'')]
   \<and> last (partition_flat (map to_predicate [Predicate (\<lambda>p (v::nat). hd p = ''a'')])
        (flat_state [(''a'', Dict [(''b'', Leaf (1::nat))]), (''c'', Leaf 2)])) \<noteq> []
   \<and> (\<exists>r. State_split [(''a'', Dict [(''b'', Leaf (1::nat))]), (''c'', Leaf 2)]
          (Predicate (\<lambda>p v. hd p = ''a'')) [] = Inl (NonExhaustiveError r))
   \<and> State_split [(''a'', Dict [(''b'', Leaf (1::nat))]), (''c'', Leaf 2)]
          (Predicate (\<lambda>p v. hd p = ''a'')) [] = Inl (NonExhaustiveError [(''c'', Leaf 2)])
   \<and> State_filter [(''a'', Dict [(''b'', Leaf (1::nat))]), (''c'', Leaf 2)]
          (Predicate (\<lambda>p v. hd p = ''a'')) [] = Inr (Single [(''a'', Dict [(''b'', Leaf 1)])])"
proof -
  let ?s = "[(''a'', Dict [(''b'', Leaf (1::nat))]), (''c'', Leaf 2)]"
  let ?f = "Predicate (\<lambda>p (v::nat). hd p = ''a'')"
  have wf: "wf_dict ?s" by (simp add: wf_dict_def)
  have ok: "\<not> wildcard_misplaced [?f]" by simp
  have ne: "last (partition_flat (map to_predicate [?f]) (flat_state ?s)) \<noteq> []"
    by (simp add: partition_flat_def assign_def flat_state_def Let_def)
  have ex: "\<exists>r. State_split ?s ?f [] = Inl (NonExhaustiveError r)"
    using conjunct1 [OF C3_split_non_exhaustive [OF wf, of ?f "[]"]] ok ne by blast
  have v1: "State_split ?s ?f [] = Inl (NonExhaustiveError [(''c'', Leaf 2)])"
    by (simp add: State_split_def split_state_def partition_flat_def assign_def flat_state_def
        from_flat_path_def unflatten_dict_def Let_def)
  have v2: "State_filter ?s ?f [] = Inr (Single [(''a'', Dict [(''b'', Leaf 1)])])"
    by (simp add: State_filter_def split_state_def partition_flat_def assign_def flat_state_def
        from_flat_path_def unflatten_dict_def Let_def)
  show ?thesis by (intro conjI wf ok ne ex v1 v2)
qed

text \<open>
  C4 (amended). For every filter list given to \<open>split\<close> or \<open>filter\<close>, wildcards
  (\<open>...\<close> or \<open>True\<close>) may stand only at the end of the list, one or several of them:
  the operation fails with the ordering error exactly when a wildcard stands before a
  filter that is not a wildcard. The error is raised by the validation, for every state,
  before the state is flattened, and nothing is returned. \<open>split(f1, ...)\<close> succeeds on
  every well-formed state and returns two states.
\<close>

theorem C4_wildcards_only_trailing:
  "(State_split s f fs = Inl OrderingError \<longleftrightarrow>
      (\<exists>i j. i < j \<and> j < length (f # fs) \<and> in_ellipsis_true ((f # fs) ! i)
         \<and> \<not> in_ellipsis_true ((f # fs) ! j)))
   \<and> (State_filter s f fs = Inl OrderingError \<longleftrightarrow>
      (\<exists>i j. i < j \<and> j < length (f # fs) \<and> in_ellipsis_true ((f # fs) ! i)
         \<and> \<not> in_ellipsis_true ((f # fs) ! j)))
   \<and> (split_state s (f # fs) = Inl OrderingError \<longleftrightarrow>
      (\<exists>i j. i < j \<and> j < length (f # fs) \<and> in_ellipsis_true ((f # fs) ! i)
         \<and> \<not> in_ellipsis_true ((f # fs) ! j)))
   \<and> (wf_dict s \<longrightarrow> (\<exists>a b. State_split s f [Ellipsis] = Inr (Tuple [a, b])))"
proof -
  let ?R = "\<lambda>gs :: ('a, 'b) Filter list. \<exists>i j. i < j \<and> j < length gs
      \<and> in_ellipsis_true (gs ! i) \<and> \<not> in_ellipsis_true (gs ! j)"
  have m: "wildcard_misplaced (f # fs) \<longleftrightarrow> ?R (f # fs)" by (rule wildcard_misplaced_iff)
  have 1: "State_split s f fs = Inl OrderingError \<longleftrightarrow> wildcard_misplaced (f # fs)"
  proof
    assume "State_split s f fs = Inl OrderingError"
    from State_split_error_cases [OF this] show "wildcard_misplaced (f # fs)" by simp
  next
    assume "wildcard_misplaced (f # fs)"
    then show "State_split s f fs = Inl OrderingError" by (rule State_split_misplaced)
  qed
  have 2: "State_filter s f fs = Inl OrderingError \<longleftrightarrow> wildcard_misplaced (f # fs)"
  proof
    assume "State_filter s f fs = Inl OrderingError"
    from State_filter_error_cases [OF this] show "wildcard_misplaced (f # fs)" by simp
  next
    assume "wildcard_misplaced (f # fs)"
    then show "State_filter s f fs = Inl OrderingError" by (rule State_filter_misplaced)
  qed
  have 3: "split_state s (f # fs) = Inl OrderingError \<longleftrightarrow> wildcard_misplaced (f # fs)"
  proof
    assume "split_state s (f # fs) = Inl OrderingError"
    from split_state_error [OF this] show "wildcard_misplaced (f # fs)" by simp
  next
    assume "wildcard_misplaced (f # fs)"
    then show "split_state s (f # fs) = Inl OrderingError" by (rule split_state_misplaced)
  qed
  have 4: "wf_dict s \<longrightarrow> (\<exists>a b. State_split s f [Ellipsis] = Inr (Tuple [a, b]))"
  proof
    assume wf: "wf_dict s"
    have ok: "\<not> wildcard_misplaced [f, Ellipsis]" by simp
    from split_state_buckets [OF wf ok] obtain sts rest
      where sp: "split_state s [f, Ellipsis] = Inr (sts @ [rest])"
        and len: "length sts = length [f, Ellipsis]"
        and unr: "unflatten_dict (bucket [f, Ellipsis] (flat_state s) (length [f, Ellipsis]))
            = Inr rest"
      by blast
    have "bucket [f, Ellipsis] (flat_state s) (length [f, Ellipsis]) = []"
      by (rule bucket_wildcard_last) simp_all
    with unr have rest: "rest = []" by simp
    from len obtain a b where sts: "sts = [a, b]"
      by (cases sts; cases "tl sts") auto
    have "length (sts @ [rest]) = Suc (Suc (length [Ellipsis :: ('a, 'b) Filter]))"
      using len by simp
    from State_split_unfold [OF sp this] rest sts
    have "State_split s f [Ellipsis] = Inr (Tuple [a, b])" by simp
    then show "\<exists>a b. State_split s f [Ellipsis] = Inr (Tuple [a, b])" by blast
  qed
  show ?thesis unfolding 1 2 3 m [symmetric] using 4 by simp
qed

text \<open>
  The theorem at \<open>split(..., f2)\<close>, which raises the ordering error, and at
  \<open>split(f1, ...)\<close>, which returns two states.
\<close>

theorem C4_wildcards_only_trailing_witness:
  "wf_dict [(''a'', Dict [(''b'', Leaf (1::nat))]), (''c'', Leaf 2)]
   \<and> State_split [(''a'', Dict [(''b'', Leaf (1::nat))]), (''c'', Leaf 2)]
        Ellipsis [Predicate (\<lambda>p v. hd p = ''a'')] = Inl OrderingError
   \<and> (\<exists>a b. State_split [(''a'', Dict [(''b'', Leaf (1::nat))]), (''c'', Leaf 2)]
        (Predicate (\<lambda>p v. hd p = ''a'')) [Ellipsis] = Inr (Tuple [a, b]))"
proof -
  let ?s = "[(''a'', Dict [(''b'', Leaf (1::nat))]), (''c'', Leaf 2)]"
  let ?f = "Predicate (\<lambda>p (v::nat). hd p = ''a'')"
  have wf: "wf_dict ?s" by (simp add: wf_dict_def)
  have "(0::nat) < 1 \<and> 1 < length [Ellipsis, ?f] \<and> in_ellipsis_true ([Ellipsis, ?f] ! 0)
      \<and> \<not> in_ellipsis_true ([Ellipsis, ?f] ! 1)"
    by simp
  then have ex: "\<exists>i j. i < j \<and> j < length [Ellipsis, ?f] \<and> in_ellipsis_true ([Ellipsis, ?f] ! i)
      \<and> \<not> in_ellipsis_true ([Ellipsis, ?f] ! j)"
    by blast
  note t1 = C4_wildcards_only_trailing [of ?s Ellipsis "[?f]"]
  from conjunct1 [OF t1] ex have 1: "State_split ?s Ellipsis [?f] = Inl OrderingError"
    by blast
  note t2 = C4_wildcards_only_trailing [of ?s ?f "[]"]
  from t2 wf have 2: "\<exists>a b. State_split ?s ?f [Ellipsis] = Inr (Tuple [a, b])"
    by blast
  show ?thesis by (intro conjI wf 1 2)
qed

text \<open>
  The claim as stated fails at \<open>split(..., ...)\<close>: the wildcard appears twice, the first
  time before the last filter, and the operation succeeds.
\<close>

theorem C4_wildcard_twice_counterexample:
  "in_ellipsis_true (Ellipsis :: (string, nat) Filter)
   \<and> State_split [(''c'', Leaf (2::nat))] Ellipsis [Ellipsis]
       = Inr (Tuple [[(''c'', Leaf 2)], []])"
  by (simp add: State_split_def split_state_def partition_flat_def assign_def flat_state_def
      from_flat_path_def unflatten_dict_def Let_def)





text \<open>
  C6. The difference \<open>a - b\<close> is \<open>a\<close> when \<open>b\<close> is empty, and otherwise the unflattening
  of the entries of the flat state of \<open>a\<close> whose path is no path of the flat state of
  \<open>b\<close>; for a well-formed \<open>a\<close> the unflattening succeeds and the result holds exactly
  those entries. Only the paths of \<open>b\<close> matter: two states \<open>b\<close> and \<open>b'\<close> with the same
  paths, both empty or both not, give the same difference, whatever their leaves. The
  union \<open>a | b\<close> is \<open>a\<close> when \<open>b\<close> is empty and \<open>merge(a, b)\<close> otherwise.
\<close>

theorem C6_difference_by_path:
  "State_sub a [] = Inr a
   \<and> State_or a [] = Inr a
   \<and> (b \<noteq> [] \<longrightarrow> State_or a b = State_merge a [b])
   \<and> (b \<noteq> [] \<longrightarrow> State_sub a b
        = from_flat_path (filter (\<lambda>(p, v). p \<notin> fst ` set (flat_state b)) (flat_state a)))
   \<and> (wf_dict a \<and> b \<noteq> [] \<longrightarrow>
        (\<exists>r. State_sub a b = Inr r \<and> wf_dict r
           \<and> (\<forall>p v. (p, v) \<in> set (flat_state r) \<longleftrightarrow>
                 (p, v) \<in> set (flat_state a) \<and> p \<notin> fst ` set (flat_state b))))
   \<and> (fst ` set (flat_state b) = fst ` set (flat_state b') \<and> (b = [] \<longleftrightarrow> b' = [])
        \<longrightarrow> State_sub a b = State_sub a b')
   \<and> State_sub [(''x'', Leaf (1::nat)), (''y'', Leaf 2)] [(''y'', Leaf 99)]
       = Inr [(''x'', Leaf 1)]"
proof (intro conjI impI)
  show "State_sub a [] = Inr a" by (simp add: State_sub_def)
  show "State_or a [] = Inr a" by (simp add: State_or_def)
next
  assume "b \<noteq> []"
  then show "State_or a b = State_merge a [b]" by (simp add: State_or_def)
next
  assume "b \<noteq> []"
  then show "State_sub a b
      = from_flat_path (filter (\<lambda>(p, v). p \<notin> fst ` set (flat_state b)) (flat_state a))"
    by (rule State_sub_nonempty)
next
  assume a: "wf_dict a \<and> b \<noteq> []"
  let ?diff = "filter (\<lambda>(p, v). p \<notin> fst ` set (flat_state b)) (flat_state a)"
  from a have "conforming (flat_state a)"
    unfolding flat_state_def by (simp add: flatten_dict_conforming)
  then have cd: "conforming ?diff" by (rule conforming_filter)
  from unflatten_dict_complete [OF cd] obtain r where r: "unflatten_dict ?diff = Inr r"
    by blast
  from a have "b \<noteq> []" by simp
  from State_sub_nonempty [OF this, of a] r have sub: "State_sub a b = Inr r"
    by (simp only: from_flat_path_def)
  from unflatten_dict_sound [OF cd r] have wf: "wf_dict r" and eq: "set (flat_state r) = set ?diff"
    unfolding flat_state_def by simp_all
  have "\<forall>p v. (p, v) \<in> set (flat_state r) \<longleftrightarrow>
      (p, v) \<in> set (flat_state a) \<and> p \<notin> fst ` set (flat_state b)"
    unfolding eq by simp
  with sub wf show "\<exists>r. State_sub a b = Inr r \<and> wf_dict r
      \<and> (\<forall>p v. (p, v) \<in> set (flat_state r) \<longleftrightarrow>
            (p, v) \<in> set (flat_state a) \<and> p \<notin> fst ` set (flat_state b))"
    by blast
next
  assume "fst ` set (flat_state b) = fst ` set (flat_state b') \<and> (b = [] \<longleftrightarrow> b' = [])"
  then show "State_sub a b = State_sub a b'"
    by (simp add: State_sub_def Let_def)
next
  show "State_sub [(''x'', Leaf (1::nat)), (''y'', Leaf 2)] [(''y'', Leaf 99)]
       = Inr [(''x'', Leaf 1)]"
    by (simp add: State_sub_def flat_state_def from_flat_path_def unflatten_dict_def Let_def)
qed

text \<open>
  The theorem at \<open>a = {"x": 1, "y": 2}\<close>, with \<open>b = {"y": 99}\<close> and \<open>b' = {"y": 2}\<close>:
  the same difference, though the leaf of \<open>b'\<close> at \<open>y\<close> equals that of \<open>a\<close> and the
  leaf of \<open>b\<close> does not.
\<close>

theorem C6_difference_by_path_witness:
  "wf_dict [(''x'', Leaf (1::nat)), (''y'', Leaf 2)]
   \<and> State_sub [(''x'', Leaf (1::nat)), (''y'', Leaf 2)] [(''y'', Leaf 99)]
       = State_sub [(''x'', Leaf (1::nat)), (''y'', Leaf 2)] [(''y'', Leaf 2)]
   \<and> State_sub [(''x'', Leaf (1::nat)), (''y'', Leaf 2)] [(''y'', Leaf 99)]
       = Inr [(''x'', Leaf 1)]
   \<and> State_or [(''x'', Leaf (1::nat)), (''y'', Leaf 2)] [(''y'', Leaf 99)]
       = Inr [(''x'', Leaf 1), (''y'', Leaf 99)]"
proof -
  let ?a = "[(''x'', Leaf (1::nat)), (''y'', Leaf 2)]"
  let ?b = "[(''y'', Leaf (99::nat))]"
  let ?b' = "[(''y'', Leaf (2::nat))]"
  have wa: "wf_dict ?a" by (simp add: wf_dict_def)
  have h: "fst ` set (flat_state ?b) = fst ` set (flat_state ?b') \<and> (?b = [] \<longleftrightarrow> ?b' = [])"
    by (simp add: flat_state_def)
  note t = C6_difference_by_path [where a = ?a and b = ?b and b' = ?b']
  from t h have 1: "State_sub ?a ?b = State_sub ?a ?b'" by blast
  from t have 2: "State_sub ?a ?b = Inr [(''x'', Leaf 1)]" by blast
  have "?b \<noteq> []" by simp
  with t have "State_or ?a ?b = State_merge ?a [?b]" by blast
  also have "\<dots> = Inr [(''x'', Leaf 1), (''y'', Leaf 99)]"
    by (simp add: State_merge_def dict_update_def flat_state_def from_flat_path_def
        unflatten_dict_def)
  finally have 3: "State_or ?a ?b = Inr [(''x'', Leaf 1), (''y'', Leaf 99)]" .
  from wa 1 2 3 show ?thesis by blast
qed

text \<open>
  C7 (amended). For every store, state and key, indexing fails with the lookup error
  when the key is absent and returns the leaf when the stored value is a leaf. When the
  stored value is a \<open>dict\<close>, it returns a \<open>State\<close> whose \<open>_mapping\<close> is that very
  dictionary, and the store is unchanged, so nothing was copied: a leaf stored through
  the view is in the dictionary that the parent holds under the key, and indexing the
  parent again gives the same view. When the stored value is a mapping that is not a
  \<open>dict\<close>, indexing fails with the construction error of \<open>__init__\<close>.
\<close>

theorem C7_getitem_view:
  "(map_of (obj_items (objs h (raw_mapping self))) key = None
      \<longrightarrow> State_getitem h self key = Inl KeyError)
   \<and> (map_of (obj_items (objs h (raw_mapping self))) key = Some (LeafVal v)
      \<longrightarrow> State_getitem h self key = Inr (LeafItem v, h))
   \<and> (map_of (obj_items (objs h (raw_mapping self))) key = Some (Ref a)
        \<and> obj_class (objs h a) = PyDict
      \<longrightarrow> State_getitem h self key = Inr (StateItem \<lparr>raw_mapping = a\<rparr>, h)
        \<and> map_of (obj_items (objs (State_setitem h \<lparr>raw_mapping = a\<rparr> k2 (LeafItem x)) a)) k2
            = Some (LeafVal x)
        \<and> (a \<noteq> raw_mapping self \<longrightarrow>
             State_getitem (State_setitem h \<lparr>raw_mapping = a\<rparr> k2 (LeafItem x)) self key
               = Inr (StateItem \<lparr>raw_mapping = a\<rparr>,
                      State_setitem h \<lparr>raw_mapping = a\<rparr> k2 (LeafItem x))))
   \<and> (map_of (obj_items (objs h (raw_mapping self))) key = Some (Ref a)
        \<and> obj_class (objs h a) \<noteq> PyDict
      \<longrightarrow> State_getitem h self key = Inl ConstructionError)"
proof (intro conjI impI)
  assume "map_of (obj_items (objs h (raw_mapping self))) key = None"
  then show "State_getitem h self key = Inl KeyError"
    by (simp add: State_getitem_def)
next
  assume "map_of (obj_items (objs h (raw_mapping self))) key = Some (LeafVal v)"
  then show "State_getitem h self key = Inr (LeafItem v, h)"
    by (simp add: State_getitem_def)
next
  assume a: "map_of (obj_items (objs h (raw_mapping self))) key = Some (Ref a)
      \<and> obj_class (objs h a) = PyDict"
  then show "State_getitem h self key = Inr (StateItem \<lparr>raw_mapping = a\<rparr>, h)"
    by (simp add: State_getitem_def State_init_def)
  show "map_of (obj_items (objs (State_setitem h \<lparr>raw_mapping = a\<rparr> k2 (LeafItem x)) a)) k2
      = Some (LeafVal x)"
    by (simp add: State_setitem_def Let_def update_conv')
next
  assume a: "map_of (obj_items (objs h (raw_mapping self))) key = Some (Ref a)
      \<and> obj_class (objs h a) = PyDict"
    and ne: "a \<noteq> raw_mapping self"
  let ?h = "State_setitem h \<lparr>raw_mapping = a\<rparr> k2 (LeafItem x)"
  have same: "objs ?h (raw_mapping self) = objs h (raw_mapping self)"
    using ne by (simp add: State_setitem_def Let_def)
  have cls: "obj_class (objs ?h a) = PyDict"
    using a by (simp add: State_setitem_def Let_def)
  show "State_getitem ?h self key = Inr (StateItem \<lparr>raw_mapping = a\<rparr>, ?h)"
    unfolding State_getitem_def same using a cls by (simp add: State_init_def)
next
  assume "map_of (obj_items (objs h (raw_mapping self))) key = Some (Ref a)
      \<and> obj_class (objs h a) \<noteq> PyDict"
  then show "State_getitem h self key = Inl ConstructionError"
    by (simp add: State_getitem_def State_init_def)
qed

text \<open>
  The theorem in a store that holds \<open>{"a": {"b": 1}}\<close>: the dictionary at address 0
  holds a reference to the dictionary at address 1 under \<open>a\<close>. Indexing with \<open>a\<close>
  returns the view of address 1 and leaves the store as it is; a leaf stored through the
  view under \<open>c\<close> is found in the dictionary at address 1.
\<close>

theorem C7_getitem_view_witness:
  "State_getitem
     \<lparr>objs = (\<lambda>_. \<lparr>obj_class = PyDict, obj_items = []\<rparr>)
        (0 := \<lparr>obj_class = PyDict, obj_items = [(''a'', Ref 1)]\<rparr>,
         1 := \<lparr>obj_class = PyDict, obj_items = [(''b'', LeafVal (1::nat))]\<rparr>),
      next_free = 2\<rparr>
     \<lparr>raw_mapping = 0\<rparr> ''a''
   = Inr (StateItem \<lparr>raw_mapping = 1\<rparr>,
     \<lparr>objs = (\<lambda>_. \<lparr>obj_class = PyDict, obj_items = []\<rparr>)
        (0 := \<lparr>obj_class = PyDict, obj_items = [(''a'', Ref 1)]\<rparr>,
         1 := \<lparr>obj_class = PyDict, obj_items = [(''b'', LeafVal (1::nat))]\<rparr>),
      next_free = 2\<rparr>)
   \<and> map_of (obj_items (objs (State_setitem
        \<lparr>objs = (\<lambda>_. \<lparr>obj_class = PyDict, obj_items = []\<rparr>)
           (0 := \<lparr>obj_class = PyDict, obj_items = [(''a'', Ref 1)]\<rparr>,
            1 := \<lparr>obj_class = PyDict, obj_items = [(''b'', LeafVal (1::nat))]\<rparr>),
         next_free = 2\<rparr>
        \<lparr>raw_mapping = 1\<rparr> ''c'' (LeafItem 7)) 1)) ''c'' = Some (LeafVal 7)"
proof -
  let ?h = "\<lparr>objs = (\<lambda>_. \<lparr>obj_class = PyDict, obj_items = []\<rparr>)
        (0 := \<lparr>obj_class = PyDict, obj_items = [(''a'', Ref 1)]\<rparr>,
         1 := \<lparr>obj_class = PyDict, obj_items = [(''b'', LeafVal (1::nat))]\<rparr>),
      next_free = 2\<rparr>"
  have hyp: "map_of (obj_items (objs ?h (raw_mapping \<lparr>raw_mapping = 0\<rparr>))) ''a'' = Some (Ref 1)
      \<and> obj_class (objs ?h 1) = PyDict"
    by simp
  note t = C7_getitem_view [where h = ?h and self = "\<lparr>raw_mapping = 0\<rparr>" and key = "''a''"
      and a = 1 and ?k2.0 = "''c''" and x = 7]
  from t hyp show ?thesis by blast
qed

text \<open>
  The claim as stated fails where the stored value is a mapping that is not a \<open>dict\<close>
  (such as a \<open>FrozenDict\<close> or a \<open>MappingProxyType\<close>, which the constructor accepts as a
  value): indexing does not return a view but raises the construction error.
\<close>

theorem C7_getitem_non_dict_counterexample:
  "State_getitem
     \<lparr>objs = (\<lambda>_. \<lparr>obj_class = PyDict, obj_items = []\<rparr>)
        (0 := \<lparr>obj_class = PyDict, obj_items = [(''a'', Ref 1)]\<rparr>,
         1 := \<lparr>obj_class = OtherMapping, obj_items = [(''b'', LeafVal (1::nat))]\<rparr>),
      next_free = 2\<rparr>
     \<lparr>raw_mapping = 0\<rparr> ''a''
   = Inl ConstructionError"
  by (simp add: State_getitem_def State_init_def)

end

